theory Spec2Isabelle
  imports Complex_Main "HOL-Library.Multiset"
begin

section \<open>Strings\<close>

text \<open>
  A TypeScript string is a sequence of UTF-16 code units. The model reads a \<^typ>\<open>string\<close> as a
  sequence of code units below 256 (the Latin-1 range), so \<^term>\<open>length\<close> is the source's
  \<^verbatim>\<open>.length\<close> on such strings. Numbers that the source counts with, compares, or adds
  as integers and halves (indices, digit values, term counts, scores, marks) are
  \<^typ>\<open>nat\<close>, \<^typ>\<open>int\<close> or \<^typ>\<open>real\<close> with exact arithmetic, which is what the machine
  computes on them below \<open>2 ^ 53\<close>. The operations that round (square root, product and
  quotient in \<^verbatim>\<open>cosineSimilarity\<close>, the product with the maximum marks) go through a
  rounding function \<open>rnd\<close> that the model takes as a parameter: every theorem holds for
  every such function.
\<close>

definition is_space :: "char \<Rightarrow> bool" where
  \<comment> \<open>the class \<^verbatim>\<open>\s\<close>, which is also what \<^verbatim>\<open>trim\<close> removes: TAB, LF, VT, FF, CR, space, NBSP\<close>
  "is_space c = (let n = (of_char c :: nat) in (9 \<le> n \<and> n \<le> 13) \<or> n = 32 \<or> n = 160)"

definition is_digit :: "char \<Rightarrow> bool" where
  \<comment> \<open>the class \<^verbatim>\<open>\d\<close>\<close>
  "is_digit c = (let n = (of_char c :: nat) in 48 \<le> n \<and> n \<le> 57)"

definition is_word :: "char \<Rightarrow> bool" where
  \<comment> \<open>the class \<^verbatim>\<open>\w\<close>, which decides \<^verbatim>\<open>\b\<close>\<close>
  "is_word c = (let n = (of_char c :: nat) in
     (48 \<le> n \<and> n \<le> 57) \<or> (65 \<le> n \<and> n \<le> 90) \<or> (97 \<le> n \<and> n \<le> 122) \<or> n = 95)"

definition ascii_lower :: "char \<Rightarrow> char" where
  "ascii_lower c = (let n = (of_char c :: nat) in if 65 \<le> n \<and> n \<le> 90 then char_of (n + 32) else c)"

definition lower_char :: "char \<Rightarrow> char" where
  \<comment> \<open>lower case of one Latin-1 code unit: A-Z and the accented capitals, but not the sign at 215\<close>
  "lower_char c = (let n = (of_char c :: nat) in
     if (65 \<le> n \<and> n \<le> 90) \<or> (192 \<le> n \<and> n \<le> 222 \<and> n \<noteq> 215) then char_of (n + 32) else c)"

definition toLowerCase :: "string \<Rightarrow> string" where
  "toLowerCase s = map lower_char s"

definition slice :: "string \<Rightarrow> nat \<Rightarrow> nat \<Rightarrow> string" where
  \<comment> \<open>\<^verbatim>\<open>s.slice(a, b)\<close> for indices that are not negative; empty when \<open>b \<le> a\<close>\<close>
  "slice s a b = take (b - a) (drop a s)"

definition trim :: "string \<Rightarrow> string" where
  "trim s = rev (dropWhile is_space (rev (dropWhile is_space s)))"

definition digits_val :: "string \<Rightarrow> nat" where
  "digits_val s = foldl (\<lambda>n c. 10 * n + (of_char c - 48)) 0 s"

definition Number :: "string \<Rightarrow> nat option" where
  \<comment> \<open>\<^verbatim>\<open>Number(s)\<close> on the strings the program converts: surrounding white space is
      dropped, the empty string is 0, a run of decimal digits is its value (exact, as the
      machine has it below \<open>2 ^ 53\<close>). \<open>None\<close> is NaN; the signed, fractional, exponent and
      prefixed literals of the language are not modelled and read as NaN here. The
      segmentation only converts ids of one to three digits.\<close>
  "Number s = (let t = trim s in if list_all is_digit t then Some (digits_val t) else None)"

section \<open>Regular expressions\<close>

text \<open>
  The patterns of the source are terms of \<open>rx\<close>. \<open>rmatch r s (i, c)\<close> lists the ways \<open>r\<close>
  matches \<open>s\<close> from index \<open>i\<close> with captures \<open>c\<close>, each as the end index and the new
  captures, in the order the backtracking matcher of the language tries them: the head
  of the list is the match it returns. A quantifier is greedy, and an iteration of a
  quantifier whose minimum is met must consume a character.
\<close>

type_synonym caps = "nat \<rightharpoonup> nat \<times> nat"

datatype rx =
    Cls "char \<Rightarrow> bool"
  | Bol
  | Wordb
  | Seq rx rx
  | Alt rx rx
  | Star rx
  | Rep nat nat rx
  | Grp nat rx

definition word_at :: "string \<Rightarrow> nat \<Rightarrow> bool" where
  "word_at s i = (i < length s \<and> is_word (s ! i))"

fun rsize :: "rx \<Rightarrow> nat" where
  "rsize (Cls P) = 1"
| "rsize Bol = 1"
| "rsize Wordb = 1"
| "rsize (Seq a b) = rsize a + rsize b + 1"
| "rsize (Alt a b) = rsize a + rsize b + 1"
| "rsize (Star r) = rsize r + 1"
| "rsize (Rep lo hi r) = rsize r + hi + 1"
| "rsize (Grp n r) = rsize r + 1"

function rmatch :: "rx \<Rightarrow> string \<Rightarrow> nat \<times> caps \<Rightarrow> (nat \<times> caps) list" where
  "rmatch (Cls P) s (i, c) = (if i < length s \<and> P (s ! i) then [(Suc i, c)] else [])"
| "rmatch Bol s (i, c) = (if i = 0 then [(i, c)] else [])"
| "rmatch Wordb s (i, c) =
     (if (0 < i \<and> word_at s (i - 1)) \<noteq> word_at s i then [(i, c)] else [])"
| "rmatch (Seq r1 r2) s x = concat (map (rmatch r2 s) (rmatch r1 s x))"
| "rmatch (Alt r1 r2) s x = rmatch r1 s x @ rmatch r2 s x"
| "rmatch (Star r) s (i, c) =
     concat (map (\<lambda>y. if i < fst y \<and> fst y \<le> length s then rmatch (Star r) s y else [])
                 (rmatch r s (i, c))) @ [(i, c)]"
| "rmatch (Rep lo hi r) s (i, c) =
     (case hi of
        0 \<Rightarrow> [(i, c)]
      | Suc h \<Rightarrow>
          concat (map (\<lambda>y. if lo = 0 \<and> fst y = i then [] else rmatch (Rep (lo - 1) h r) s y)
                      (rmatch r s (i, c)))
          @ (if lo = 0 then [(i, c)] else []))"
| "rmatch (Grp n r) s (i, c) = map (\<lambda>y. (fst y, (snd y)(n \<mapsto> (i, fst y)))) (rmatch r s (i, c))"
  by pat_completeness auto
termination
  by (relation "inv_image (less_than <*lex*> less_than) (\<lambda>(r, s, x). (rsize r, length s - fst x))") auto

declare rmatch.simps(6) [simp del]

definition ws :: rx where "ws = Cls is_space"
definition digit :: rx where "digit = Cls is_digit"
definition chr :: "char \<Rightarrow> rx" where "chr a = Cls (\<lambda>c. c = a)"

definition chr_i :: "char \<Rightarrow> rx" where
  \<comment> \<open>a letter under the flag \<^verbatim>\<open>i\<close>: only its two ASCII cases match it\<close>
  "chr_i a = Cls (\<lambda>c. ascii_lower c = ascii_lower a)"

definition plus :: "rx \<Rightarrow> rx" where "plus r = Seq r (Star r)"

fun lit :: "string \<Rightarrow> rx" where
  "lit [] = Rep 0 0 Bol"
| "lit [a] = chr a"
| "lit (a # as) = Seq (chr a) (lit as)"

fun lit_i :: "string \<Rightarrow> rx" where
  "lit_i [] = Rep 0 0 Bol"
| "lit_i [a] = chr_i a"
| "lit_i (a # as) = Seq (chr_i a) (lit_i as)"

primrec first_match :: "rx \<Rightarrow> string \<Rightarrow> nat list \<Rightarrow> (nat \<times> nat \<times> caps) option" where
  "first_match r s [] = None"
| "first_match r s (p # ps) =
     (case rmatch r s (p, Map.empty) of
        [] \<Rightarrow> first_match r s ps
      | y # _ \<Rightarrow> Some (p, fst y, snd y))"

definition exec :: "rx \<Rightarrow> string \<Rightarrow> nat \<Rightarrow> (nat \<times> nat \<times> caps) option" where
  \<comment> \<open>\<^verbatim>\<open>re.exec(s)\<close> of a global pattern whose \<^verbatim>\<open>lastIndex\<close> is given: the match at the
      first index from there on that has one, as (index, end, captures)\<close>
  "exec r s lastIndex = first_match r s [lastIndex ..< Suc (length s)]"

definition group_len :: "caps \<Rightarrow> nat \<Rightarrow> nat" where
  \<comment> \<open>\<^verbatim>\<open>m[n]?.length ?? 0\<close>\<close>
  "group_len c n = (case c n of None \<Rightarrow> 0 | Some (a, b) \<Rightarrow> b - a)"

definition group_str :: "string \<Rightarrow> caps \<Rightarrow> nat \<Rightarrow> string" where
  \<comment> \<open>\<^verbatim>\<open>String(m[n])\<close>\<close>
  "group_str s c n = (case c n of None \<Rightarrow> ''undefined'' | Some (a, b) \<Rightarrow> slice s a b)"

lemma rmatch_bounds:
  "y \<in> set (rmatch r s x) \<Longrightarrow> fst x \<le> fst y \<and> (fst x \<le> length s \<longrightarrow> fst y \<le> length s)"
proof (induction r s x arbitrary: y rule: rmatch.induct)
  case (1 P s i c)
  then show ?case by (auto split: if_splits)
next
  case (2 s i c)
  then show ?case by (auto split: if_splits)
next
  case (3 s i c)
  then show ?case by (auto split: if_splits)
next
  case (4 r1 r2 s x)
  from "4.prems" obtain m where m: "m \<in> set (rmatch r1 s x)" "y \<in> set (rmatch r2 s m)"
    by auto
  from "4.IH"(1)[OF m(1)] "4.IH"(2)[OF m(1) m(2)] show ?case by auto
next
  case (5 r1 r2 s x)
  from "5.prems" have "y \<in> set (rmatch r1 s x) \<or> y \<in> set (rmatch r2 s x)" by simp
  with "5.IH" show ?case by blast
next
  case (6 r s i c)
  from "6.prems" consider "y = (i, c)"
    | m where "m \<in> set (rmatch r s (i, c))" "i < fst m" "fst m \<le> length s"
        "y \<in> set (rmatch (Star r) s m)"
    by (auto simp: rmatch.simps(6) split: if_splits)
  then show ?case
  proof cases
    case 1
    then show ?thesis by simp
  next
    case 2
    from "6.IH"(2)[OF 2(1) _ 2(4)] 2(2,3) show ?thesis by auto
  qed
next
  case (7 lo hi r s i c)
  show ?case
  proof (cases hi)
    case 0
    with "7.prems" show ?thesis by simp
  next
    case (Suc h)
    with "7.prems" consider "y = (i, c)"
      | m where "m \<in> set (rmatch r s (i, c))" "\<not> (lo = 0 \<and> fst m = i)"
          "y \<in> set (rmatch (Rep (lo - 1) h r) s m)"
      by (auto split: if_splits)
    then show ?thesis
    proof cases
      case 1
      then show ?thesis by simp
    next
      case 2
      from "7.IH"(1)[OF Suc 2(1)] "7.IH"(2)[OF Suc 2(1) 2(2) 2(3)] show ?thesis by auto
    qed
  qed
next
  case (8 n r s i c)
  then show ?case by auto
qed

lemma first_match_Some:
  "first_match r s ps = Some (p, e, c) \<Longrightarrow> p \<in> set ps \<and> (e, c) \<in> set (rmatch r s (p, Map.empty))"
  by (induction ps) (auto split: list.splits)

lemma exec_Some:
  assumes "exec r s l = Some (p, e, c)"
  shows "l \<le> p" and "p \<le> length s" and "p \<le> e" and "e \<le> length s"
    and "(e, c) \<in> set (rmatch r s (p, Map.empty))"
proof -
  from assms have a: "p \<in> set [l ..< Suc (length s)]" and b: "(e, c) \<in> set (rmatch r s (p, Map.empty))"
    using first_match_Some [of r s "[l ..< Suc (length s)]" p e c] by (simp_all add: exec_def)
  from a show "l \<le> p" and p: "p \<le> length s" by auto
  from rmatch_bounds [OF b] p show "p \<le> e" and "e \<le> length s" by simp_all
  from b show "(e, c) \<in> set (rmatch r s (p, Map.empty))" .
qed

function match_all :: "rx \<Rightarrow> string \<Rightarrow> nat \<Rightarrow> (nat \<times> nat \<times> caps) list" where
  "match_all r s lastIndex =
     (case exec r s lastIndex of
        None \<Rightarrow> []
      | Some (p, e, c) \<Rightarrow> (p, e, c) # match_all r s (if e = p then Suc e else e))"
  by pat_completeness auto
termination
proof (relation "measure (\<lambda>(r, s, l). Suc (length s) - l)", goal_cases)
  case 1
  show ?case by simp
next
  case (2 r s lastIndex x2 p y e c)
  then have ex: "exec r s lastIndex = Some (p, e, c)" by simp
  from exec_Some(1,2,3) [OF ex] show ?case by auto
qed

declare match_all.simps [simp del]

fun splice :: "string \<Rightarrow> string \<Rightarrow> nat \<Rightarrow> (nat \<times> nat \<times> caps) list \<Rightarrow> string" where
  "splice s rep pos [] = drop pos s"
| "splice s rep pos ((p, e, c) # ms) = slice s pos p @ rep @ splice s rep e ms"

definition replace_all :: "rx \<Rightarrow> string \<Rightarrow> string \<Rightarrow> string" where
  \<comment> \<open>\<^verbatim>\<open>s.replace(/r/g, rep)\<close> for a replacement text without \<^verbatim>\<open>$\<close>\<close>
  "replace_all r rep s = splice s rep 0 (match_all r s 0)"

section \<open>Answer segmentation\<close>

record QaPair =
  questionId :: string
  text' :: string

record marker =
  idx :: nat
  qid :: string
  markerLen :: nat

definition marker_re :: rx where
  \<comment> \<open>\<^verbatim>\<open>/(^|\n)\s*(?:Q(?:uestion)?\s*)?(\d{1,3})\s*[:.)-]\s*/gi\<close>\<close>
  "marker_re =
     Seq (Grp 1 (Alt Bol (chr CHR 0x0A)))
    (Seq (Star ws)
    (Seq (Rep 0 1 (Seq (chr_i CHR ''Q'') (Seq (Rep 0 1 (lit_i ''uestion'')) (Star ws))))
    (Seq (Grp 2 (Rep 1 3 digit))
    (Seq (Star ws)
    (Seq (Cls (\<lambda>c. c \<in> set '':.)-''))
         (Star ws))))))"

partial_function (option) scan_markers :: "string \<Rightarrow> nat \<Rightarrow> marker list \<Rightarrow> marker list option" where
  "scan_markers t lastIndex markers =
     (case exec marker_re t lastIndex of
        None \<Rightarrow> Some markers
      | Some (index, e, c) \<Rightarrow>
          scan_markers t e
            (markers @ [\<lparr>idx = index + group_len c 1, qid = group_str t c 2,
                          markerLen = (e - index) - group_len c 1\<rparr>]))"

declare scan_markers.simps [code]

definition spans :: "string \<Rightarrow> marker list \<Rightarrow> QaPair list" where
  "spans t markers =
     map (\<lambda>i. let start = idx (markers ! i) + markerLen (markers ! i);
                  stop = (if i + 1 < length markers then idx (markers ! (i + 1)) else length t);
                  chunk = trim (slice t start stop)
              in \<lparr>questionId = qid (markers ! i), text' = chunk\<rparr>)
         [0 ..< length markers]"

fun map_set :: "('k \<times> 'v) list \<Rightarrow> 'k \<Rightarrow> 'v \<Rightarrow> ('k \<times> 'v) list" where
  "map_set [] k v = [(k, v)]"
| "map_set ((k', v') # m) k v = (if k' = k then (k, v) # m else (k', v') # map_set m k v)"

fun insort_cmp :: "('a \<Rightarrow> 'a \<Rightarrow> 'b::{zero,ord}) \<Rightarrow> 'a \<Rightarrow> 'a list \<Rightarrow> 'a list" where
  "insort_cmp cmp x [] = [x]"
| "insort_cmp cmp x (y # ys) = (if cmp x y \<le> 0 then x # y # ys else y # insort_cmp cmp x ys)"

definition js_sort :: "('a \<Rightarrow> 'a \<Rightarrow> 'b::{zero,ord}) \<Rightarrow> 'a list \<Rightarrow> 'a list" where
  \<comment> \<open>\<^verbatim>\<open>xs.sort(cmp)\<close>, a stable sort: an element moves behind a later one only when the
      comparator is positive on the two (a NaN from the comparator counts as 0)\<close>
  "js_sort cmp xs = foldr (insort_cmp cmp) xs []"

definition by_number :: "string \<Rightarrow> string \<Rightarrow> int" where
  "by_number a b = (case (Number a, Number b) of (Some x, Some y) \<Rightarrow> int x - int y | _ \<Rightarrow> 0)"

definition qa_text :: "string \<Rightarrow> string" where
  \<comment> \<open>\<^verbatim>\<open>rawText.replace(/\r\n/g, "\n").trim()\<close>\<close>
  "qa_text rawText = trim (replace_all (Seq (chr CHR 0x0D) (chr CHR 0x0A)) ''\<newline>'' rawText)"

definition extractQaPairs :: "string \<Rightarrow> QaPair list option" where
  "extractQaPairs rawText =
     (let t = qa_text rawText in
      if t = [] then Some []
      else
        case scan_markers t 0 [] of
          None \<Rightarrow> None
        | Some markers \<Rightarrow>
            if length markers = 0 then Some [\<lparr>questionId = ''1'', text' = t\<rparr>]
            else
              let pairs = spans t markers;
                  byId = foldl (\<lambda>m p. map_set m (questionId p) p) [] pairs
              in Some (js_sort (\<lambda>a b. by_number (questionId a) (questionId b)) (map snd byId)))"

definition marker_shape :: "string \<Rightarrow> marker \<Rightarrow> bool" where
  \<comment> \<open>the text of a marker: from \<open>idx\<close> an optional prefix up to \<open>d0\<close>, the digits of the id
      up to \<open>d1\<close>, white space up to \<open>q\<close>, the separator at \<open>q\<close>, then white space up to the
      end of the marker, which is the end of the text or a character that is not white space\<close>
  "marker_shape t m \<longleftrightarrow>
     (\<exists>d0 \<in> {idx m ..< length t}. \<exists>d1 \<in> {d0 <.. d0 + 3}. \<exists>q \<in> {d1 ..< idx m + markerLen m}.
        idx m + markerLen m \<le> length t \<and> qid m = slice t d0 d1 \<and>
        (\<forall>k \<in> {d0 ..< d1}. is_digit (t ! k)) \<and>
        (\<forall>k \<in> {d1 ..< q}. is_space (t ! k)) \<and>
        t ! q \<in> set '':.)-'' \<and>
        (\<forall>k \<in> {q <..< idx m + markerLen m}. is_space (t ! k)) \<and>
        (idx m + markerLen m < length t \<longrightarrow> \<not> is_space (t ! (idx m + markerLen m))))"

fun grps :: "rx \<Rightarrow> nat set" where
  "grps (Cls P) = {}"
| "grps Bol = {}"
| "grps Wordb = {}"
| "grps (Seq a b) = grps a \<union> grps b"
| "grps (Alt a b) = grps a \<union> grps b"
| "grps (Star r) = grps r"
| "grps (Rep lo hi r) = grps r"
| "grps (Grp n r) = insert n (grps r)"

lemma rmatch_caps:
  "y \<in> set (rmatch r s x) \<Longrightarrow> n \<notin> grps r \<Longrightarrow> snd y n = snd x n"
proof (induction r s x arbitrary: y rule: rmatch.induct)
  case (4 r1 r2 s x)
  from "4.prems" obtain m where m: "m \<in> set (rmatch r1 s x)" "y \<in> set (rmatch r2 s m)"
    by auto
  from "4.IH"(1)[OF m(1)] "4.IH"(2)[OF m(1) m(2)] "4.prems"(2) show ?case by simp
next
  case (5 r1 r2 s x)
  from "5.prems" have "y \<in> set (rmatch r1 s x) \<or> y \<in> set (rmatch r2 s x)" by simp
  with "5.IH"(1)[of y] "5.IH"(2)[of y] "5.prems"(2) show ?case by auto
next
  case (6 r s i c)
  from "6.prems" consider "y = (i, c)"
    | m where "m \<in> set (rmatch r s (i, c))" "i < fst m" "fst m \<le> length s"
        "y \<in> set (rmatch (Star r) s m)"
    by (auto simp: rmatch.simps(6) split: if_splits)
  then show ?case
  proof cases
    case 1
    then show ?thesis by simp
  next
    case 2
    from "6.IH"(1)[OF 2(1)] "6.IH"(2)[OF 2(1) _ 2(4)] 2(2,3) "6.prems"(2) show ?thesis by auto
  qed
next
  case (7 lo hi r s i c)
  show ?case
  proof (cases hi)
    case 0
    with "7.prems" show ?thesis by simp
  next
    case (Suc h)
    with "7.prems" consider "y = (i, c)"
      | m where "m \<in> set (rmatch r s (i, c))" "\<not> (lo = 0 \<and> fst m = i)"
          "y \<in> set (rmatch (Rep (lo - 1) h r) s m)"
      by (auto split: if_splits)
    then show ?thesis
    proof cases
      case 1
      then show ?thesis by simp
    next
      case 2
      from "7.IH"(1)[OF Suc 2(1)] "7.IH"(2)[OF Suc 2(1) 2(2) 2(3)] "7.prems"(2) show ?thesis by auto
    qed
  qed
qed (auto split: if_splits)

lemma rmatch_SeqE:
  assumes "y \<in> set (rmatch (Seq a b) s x)"
  obtains m where "m \<in> set (rmatch a s x)" and "y \<in> set (rmatch b s m)"
  using assms by auto

lemma rmatch_Star_Cls:
  "y \<in> set (rmatch (Star (Cls P)) s (i, c)) \<Longrightarrow>
     snd y = c \<and> i \<le> fst y \<and> (\<forall>k. i \<le> k \<and> k < fst y \<longrightarrow> k < length s \<and> P (s ! k))"
proof (induction "length s - i" arbitrary: i)
  case 0
  then show ?case by (auto simp: rmatch.simps(6) split: if_splits)
next
  case (Suc n)
  from Suc.prems have "y \<in> set (concat (map (\<lambda>y. if i < fst y \<and> fst y \<le> length s
      then rmatch (Star (Cls P)) s y else []) (rmatch (Cls P) s (i, c))) @ [(i, c)])"
    by (simp only: rmatch.simps(6))
  then consider "y = (i, c)"
    | "i < length s" "P (s ! i)" "y \<in> set (rmatch (Star (Cls P)) s (Suc i, c))"
    by (auto split: if_splits)
  then show ?case
  proof cases
    case 1
    then show ?thesis by auto
  next
    case 2
    from Suc.hyps(2) have "n = length s - Suc i" by simp
    from Suc.hyps(1)[OF this 2(3)]
    have ih: "snd y = c" "Suc i \<le> fst y"
      "\<forall>k. Suc i \<le> k \<and> k < fst y \<longrightarrow> k < length s \<and> P (s ! k)" by simp_all
    have "k < length s \<and> P (s ! k)" if "i \<le> k" "k < fst y" for k
      using that ih(3) 2(1,2) by (cases "k = i") auto
    with ih show ?thesis by auto
  qed
qed

lemma rmatch_Rep_Cls:
  "y \<in> set (rmatch (Rep lo hi (Cls P)) s (i, c)) \<Longrightarrow> lo \<le> hi \<Longrightarrow>
     snd y = c \<and> i + lo \<le> fst y \<and> fst y \<le> i + hi \<and>
     (\<forall>k. i \<le> k \<and> k < fst y \<longrightarrow> k < length s \<and> P (s ! k))"
proof (induction hi arbitrary: lo i)
  case 0
  then show ?case by auto
next
  case (Suc h)
  from Suc.prems consider "lo = 0" "y = (i, c)"
    | "i < length s" "P (s ! i)" "y \<in> set (rmatch (Rep (lo - 1) h (Cls P)) s (Suc i, c))"
    by (auto split: if_splits)
  then show ?case
  proof cases
    case 1
    then show ?thesis by auto
  next
    case 2
    from Suc.prems(2) have "lo - 1 \<le> h" by simp
    from Suc.IH[OF 2(3) this]
    have ih: "snd y = c" "Suc i + (lo - 1) \<le> fst y" "fst y \<le> Suc i + h"
      "\<forall>k. Suc i \<le> k \<and> k < fst y \<longrightarrow> k < length s \<and> P (s ! k)" by simp_all
    have "k < length s \<and> P (s ! k)" if "i \<le> k" "k < fst y" for k
      using that ih(4) 2(1,2) by (cases "k = i") auto
    with ih show ?thesis by auto
  qed
qed

lemma marker_re_match:
  assumes "(e, c) \<in> set (rmatch marker_re s (p, Map.empty))"
  shows "\<exists>p1 d0 d1 q. c 1 = Some (p, p1) \<and> c 2 = Some (d0, d1) \<and> p \<le> p1 \<and> p1 \<le> d0 \<and> d0 < d1 \<and>
           d1 \<le> d0 + 3 \<and> d1 \<le> q \<and> q < e \<and>
           (\<forall>k. d0 \<le> k \<and> k < d1 \<longrightarrow> k < length s \<and> is_digit (s ! k)) \<and>
           (\<forall>k. d1 \<le> k \<and> k < q \<longrightarrow> is_space (s ! k)) \<and>
           q < length s \<and> s ! q \<in> set '':.)-'' \<and>
           (\<forall>k. q < k \<and> k < e \<longrightarrow> is_space (s ! k))"
  using assms unfolding marker_re_def
proof (elim rmatch_SeqE, goal_cases)
  case (1 y1 y2 y3 y4 y5 y6)
  from 1(1) have g1: "snd y1 = [1 \<mapsto> (p, fst y1)]" "p \<le> fst y1"
    by (auto simp: chr_def split: if_splits)
  obtain i2 c2 where y2: "y2 = (i2, c2)" by (cases y2)
  obtain i1 c1 where y1: "y1 = (i1, c1)" by (cases y1)
  obtain i3 c3 where y3: "y3 = (i3, c3)" by (cases y3)
  obtain i4 c4 where y4: "y4 = (i4, c4)" by (cases y4)
  obtain i5 c5 where y5: "y5 = (i5, c5)" by (cases y5)
  obtain i6 c6 where y6: "y6 = (i6, c6)" by (cases y6)
  from rmatch_Star_Cls[of y2 is_space s i1 c1] 1(2)
  have s2: "c2 = c1" "i1 \<le> i2" by (simp_all add: ws_def y1 y2)
  from rmatch_bounds[OF 1(3)] have s3: "i2 \<le> i3" by (simp add: y2 y3)
  have "c3 n = c2 n" for n
    using rmatch_caps[OF 1(3), of n] by (simp add: y2 y3 chr_i_def ws_def)
  then have c3: "c3 = c2" by auto
  from 1(4) obtain z where z: "z \<in> set (rmatch (Rep 1 3 (Cls is_digit)) s (i3, c3))"
    and y4z: "y4 = (fst z, (snd z)(2 \<mapsto> (i3, fst z)))"
    by (auto simp: y3 digit_def)
  from rmatch_Rep_Cls[OF z] have s4: "snd z = c3" "i3 + 1 \<le> fst z" "fst z \<le> i3 + 3"
    "\<forall>k. i3 \<le> k \<and> k < fst z \<longrightarrow> k < length s \<and> is_digit (s ! k)" by simp_all
  from y4z y4 s4(1) have c4: "c4 = c3(2 \<mapsto> (i3, i4))" and i4: "i4 = fst z" by simp_all
  from rmatch_Star_Cls[of y5 is_space s i4 c4] 1(5)
  have s5: "c5 = c4" "i4 \<le> i5" "\<forall>k. i4 \<le> k \<and> k < i5 \<longrightarrow> is_space (s ! k)"
    by (simp_all add: ws_def y4 y5)
  from 1(6) have s6: "c6 = c5" "i6 = Suc i5" "i5 < length s" "s ! i5 \<in> set '':.)-''"
    by (auto simp: y5 y6 split: if_splits)
  from rmatch_Star_Cls[of "(e, c)" is_space s i6 c6] 1(7)
  have s7: "c = c6" "i6 \<le> e" "\<forall>k. i6 \<le> k \<and> k < e \<longrightarrow> is_space (s ! k)"
    by (simp_all add: ws_def y6)
  have cc: "c = [1 \<mapsto> (p, i1), 2 \<mapsto> (i3, i4)]"
    using s7(1) s6(1) s5(1) c4 c3 s2(1) g1(1) by (simp add: y1)
  show ?case
    apply (rule exI[of _ i1], rule exI[of _ i3], rule exI[of _ i4], rule exI[of _ i5])
    using cc g1(2) s2(2) s3 s4(2,3,4) i4 s5(2,3) s6(2,3,4) s7(2,3)
    by (auto simp: y1)
qed

lemma concat_map_hd:
  "concat (map f xs) = y # ys \<Longrightarrow> \<exists>x \<in> set xs. \<exists>zs. f x = y # zs"
proof (induction xs)
  case Nil
  then show ?case by simp
next
  case (Cons x xs)
  then show ?case by (cases "f x") auto
qed

lemma rmatch_Seq_hd:
  "rmatch (Seq a b) s x = y # ys \<Longrightarrow> \<exists>m \<in> set (rmatch a s x). \<exists>zs. rmatch b s m = y # zs"
  using concat_map_hd[of "rmatch b s" "rmatch a s x" y ys] by simp

lemma rmatch_Seq_hdE:
  assumes "rmatch (Seq a b) s x = y # ys"
  obtains m zs where "m \<in> set (rmatch a s x)" and "rmatch b s m = y # zs"
  using rmatch_Seq_hd[OF assms] by blast

lemma rmatch_Star_Cls_step:
  "rmatch (Star (Cls P)) s (i, c) =
     (if i < length s \<and> P (s ! i) then rmatch (Star (Cls P)) s (Suc i, c) else []) @ [(i, c)]"
  by (auto simp: rmatch.simps(6)[of "Cls P" s i c])

lemma rmatch_Star_Cls_hd:
  "rmatch (Star (Cls P)) s (i, c) = y # ys \<Longrightarrow> fst y < length s \<Longrightarrow> \<not> P (s ! fst y)"
proof (induction "length s - i" arbitrary: i ys)
  case 0
  then show ?case by (auto simp: rmatch_Star_Cls_step[of P s i])
next
  case (Suc n)
  show ?case
  proof (cases "i < length s \<and> P (s ! i)")
    case True
    obtain z zs where z: "rmatch (Star (Cls P)) s (Suc i, c) = z # zs"
      by (cases "rmatch (Star (Cls P)) s (Suc i, c)") (simp_all add: rmatch_Star_Cls_step[of P s "Suc i"])
    with True Suc.prems(1) have "y = z" by (simp add: rmatch_Star_Cls_step[of P s i])
    from Suc.hyps(2) have "n = length s - Suc i" by simp
    from Suc.hyps(1)[OF this z[folded \<open>y = z\<close>] Suc.prems(2)] show ?thesis .
  next
    case False
    with Suc.prems(1) have "y = (i, c)" by (simp add: rmatch_Star_Cls_step[of P s i])
    with False Suc.prems(2) show ?thesis by simp
  qed
qed

lemma Star_Cls_hd_run:
  assumes "i + n \<le> length s" and "\<forall>k < n. P (s ! (i + k))"
    and "i + n < length s \<longrightarrow> \<not> P (s ! (i + n))"
  shows "\<exists>ys. rmatch (Star (Cls P)) s (i, c) = (i + n, c) # ys"
  using assms
proof (induction n arbitrary: i)
  case 0
  then show ?case by (auto simp: rmatch_Star_Cls_step[of P s i])
next
  case (Suc n)
  from Suc.prems have a: "i < length s" "P (s ! i)" by (simp, force)
  have "\<exists>ys. rmatch (Star (Cls P)) s (Suc i, c) = (Suc i + n, c) # ys"
  proof (rule Suc.IH)
    show "Suc i + n \<le> length s" using Suc.prems(1) by simp
    show "\<forall>k < n. P (s ! (Suc i + k))"
    proof (intro allI impI)
      fix k assume "k < n"
      then have "Suc k < Suc n" by simp
      with Suc.prems(2) have "P (s ! (i + Suc k))" by blast
      then show "P (s ! (Suc i + k))" by simp
    qed
    show "Suc i + n < length s \<longrightarrow> \<not> P (s ! (Suc i + n))" using Suc.prems(3) by simp
  qed
  with a show ?case by (auto simp: rmatch_Star_Cls_step[of P s i])
qed

lemma rmatch_Rep_Cls_step:
  "rmatch (Rep lo (Suc h) (Cls P)) s (i, c) =
     (if i < length s \<and> P (s ! i) then rmatch (Rep (lo - 1) h (Cls P)) s (Suc i, c) else [])
     @ (if lo = 0 then [(i, c)] else [])"
  by (auto simp del: rmatch.simps(7) simp: rmatch.simps(7)[of lo "Suc h" "Cls P" s i c])

lemma Rep_Cls_hd_run:
  assumes "lo \<le> n" and "n \<le> hi" and "i + n \<le> length s" and "\<forall>k < n. P (s ! (i + k))"
    and "n < hi \<longrightarrow> i + n < length s \<longrightarrow> \<not> P (s ! (i + n))"
  shows "\<exists>ys. rmatch (Rep lo hi (Cls P)) s (i, c) = (i + n, c) # ys"
  using assms
proof (induction hi arbitrary: lo n i)
  case 0
  then show ?case by simp
next
  case (Suc h)
  show ?case
  proof (cases n)
    case 0
    with Suc.prems have "lo = 0" "\<not> (i < length s \<and> P (s ! i))" by auto
    with 0 show ?thesis by (simp only: rmatch_Rep_Cls_step) simp
  next
    case (Suc n')
    with Suc.prems have a: "i < length s" "P (s ! i)" by (simp, force)
    have "\<exists>ys. rmatch (Rep (lo - 1) h (Cls P)) s (Suc i, c) = (Suc i + n', c) # ys"
    proof (rule Suc.IH)
      show "lo - 1 \<le> n'" using Suc.prems(1) Suc by simp
      show "n' \<le> h" using Suc.prems(2) Suc by simp
      show "Suc i + n' \<le> length s" using Suc.prems(3) Suc by simp
      show "\<forall>k < n'. P (s ! (Suc i + k))"
      proof (intro allI impI)
        fix k assume "k < n'"
        then have "Suc k < n" using Suc by simp
        with Suc.prems(4) have "P (s ! (i + Suc k))" by blast
        then show "P (s ! (Suc i + k))" by simp
      qed
      show "n' < h \<longrightarrow> Suc i + n' < length s \<longrightarrow> \<not> P (s ! (Suc i + n'))"
        using Suc.prems(5) Suc by simp
    qed
    then obtain ys where "rmatch (Rep (lo - 1) h (Cls P)) s (Suc i, c) = (Suc i + n', c) # ys"
      by blast
    with a Suc show ?thesis by (simp only: rmatch_Rep_Cls_step) simp
  qed
qed

lemma rmatch_Seq_hdI:
  "rmatch a s x = m # ms \<Longrightarrow> rmatch b s m = y # ys \<Longrightarrow> \<exists>zs. rmatch (Seq a b) s x = y # zs"
  by simp

lemma first_match_hd:
  "first_match r s ps = Some (p, e, c) \<Longrightarrow> \<exists>ys. rmatch r s (p, Map.empty) = (e, c) # ys"
  by (induction ps) (auto split: list.splits)

lemma exec_Some_hd:
  "exec r s l = Some (p, e, c) \<Longrightarrow> \<exists>ys. rmatch r s (p, Map.empty) = (e, c) # ys"
  unfolding exec_def by (rule first_match_hd)

lemma marker_re_hd_maximal:
  assumes "rmatch marker_re s x = (e, c) # ys" and "e < length s"
  shows "\<not> is_space (s ! e)"
  using assms(1) unfolding marker_re_def
proof (elim rmatch_Seq_hdE, goal_cases)
  case (1 y1 zs1 y2 zs2 y3 zs3 y4 zs4 y5 zs5 y6 zs6)
  obtain i6 c6 where y6: "y6 = (i6, c6)" by (cases y6)
  from 1(7) have "rmatch (Star (Cls is_space)) s (i6, c6) = (e, c) # zs6"
    by (simp add: ws_def y6)
  from rmatch_Star_Cls_hd[OF this] assms(2) show ?case by simp
qed

lemma scan_markers_total:
  "\<exists>ms. scan_markers t l acc = Some (acc @ ms) \<and> (\<forall>m \<in> set ms. marker_shape t m)"
proof (induction "Suc (length t) - l" arbitrary: l acc rule: less_induct)
  case less
  show ?case
  proof (cases "exec marker_re t l")
    case None
    then have "scan_markers t l acc = Some acc"
      by (subst scan_markers.simps) simp
    then show ?thesis by simp
  next
    case (Some x)
    obtain p e c where x: "x = (p, e, c)" by (cases x)
    note ex = Some[unfolded x]
    from exec_Some[OF ex] have b: "l \<le> p" "e \<le> length t"
      and m: "(e, c) \<in> set (rmatch marker_re t (p, Map.empty))" by simp_all
    from exec_Some_hd[OF ex] obtain ys where "rmatch marker_re t (p, Map.empty) = (e, c) # ys" ..
    from marker_re_hd_maximal[OF this] have mx: "e < length t \<longrightarrow> \<not> is_space (t ! e)" by simp
    from marker_re_match[OF m] obtain p1 d0 d1 q where
      f: "c 1 = Some (p, p1)" "c 2 = Some (d0, d1)" "p \<le> p1" "p1 \<le> d0" "d0 < d1"
        "d1 \<le> d0 + 3" "d1 \<le> q" "q < e"
        "\<forall>k. d0 \<le> k \<and> k < d1 \<longrightarrow> k < length t \<and> is_digit (t ! k)"
        "\<forall>k. d1 \<le> k \<and> k < q \<longrightarrow> is_space (t ! k)"
        "q < length t" "t ! q \<in> set '':.)-''"
        "\<forall>k. q < k \<and> k < e \<longrightarrow> is_space (t ! k)"
      by blast
    define mk where "mk = \<lparr>idx = p + group_len c 1, qid = group_str t c 2,
      markerLen = (e - p) - group_len c 1\<rparr>"
    have mk: "idx mk = p1" "markerLen mk = e - p1" "qid mk = slice t d0 d1"
      using f(1-8) by (simp_all add: mk_def group_len_def group_str_def)
    have pe: "p1 + (e - p1) = e" using f(3-8) by simp
    have shape: "marker_shape t mk"
      unfolding marker_shape_def mk pe
      apply (rule bexI[of _ d0], rule bexI[of _ d1], rule bexI[of _ q])
      using f(4-13) b(2) mx by auto
    have "Suc (length t) - e < Suc (length t) - l"
      using f(3-8) b by linarith
    from less[OF this, of "acc @ [mk]"] obtain ms' where
      ms': "scan_markers t e (acc @ [mk]) = Some ((acc @ [mk]) @ ms')"
        "\<forall>m \<in> set ms'. marker_shape t m"
      by blast
    have "scan_markers t l acc = scan_markers t e (acc @ [mk])"
      by (subst scan_markers.simps) (simp add: ex mk_def)
    with ms' shape show ?thesis
      by (intro exI[of _ "mk # ms'"]) simp
  qed
qed

text \<open>
  C9. \<open>extractQaPairs\<close> returns for every input (the marker loop ends); when the trimmed
  text is empty the result is the empty sequence; when the trimmed text is not empty and
  the marker pattern has no match in it, the result is the single span with question id
  "1" and the whole trimmed text.
\<close>

theorem extractQaPairs_total:
  "(\<exists>r. extractQaPairs rawText = Some r) \<and>
   (qa_text rawText = [] \<longrightarrow> extractQaPairs rawText = Some []) \<and>
   (qa_text rawText \<noteq> [] \<and> exec marker_re (qa_text rawText) 0 = None \<longrightarrow>
      extractQaPairs rawText = Some [\<lparr>questionId = ''1'', text' = qa_text rawText\<rparr>])"
proof -
  obtain ms where ms: "scan_markers (qa_text rawText) 0 [] = Some ms"
    using scan_markers_total[of "qa_text rawText" 0 "[]"] by auto
  have none: "scan_markers (qa_text rawText) 0 [] = Some []"
    if "exec marker_re (qa_text rawText) 0 = None"
    using that by (subst scan_markers.simps) simp
  show ?thesis
    using ms none by (auto simp: extractQaPairs_def Let_def)
qed

theorem extractQaPairs_total_witness:
  "qa_text '''' = [] \<and> extractQaPairs '''' = Some [] \<and>
   qa_text ''just some text'' \<noteq> [] \<and> exec marker_re (qa_text ''just some text'') 0 = None \<and>
   extractQaPairs ''just some text'' = Some [\<lparr>questionId = ''1'', text' = ''just some text''\<rparr>]"
proof -
  have a: "qa_text '''' = []" by code_simp
  have b: "qa_text ''just some text'' = ''just some text''" by code_simp
  have "Option.is_none (exec marker_re ''just some text'' 0)" by code_simp
  then have c: "exec marker_re ''just some text'' 0 = None" by (simp add: Option.is_none_def)
  from extractQaPairs_total[of "''''"] extractQaPairs_total[of "''just some text''"] a b c
  show ?thesis by simp
qed

lemma mset_insort_cmp: "mset (insort_cmp cmp x ys) = add_mset x (mset ys)"
  by (induction ys) auto

lemma mset_js_sort: "mset (js_sort cmp xs) = mset xs"
  unfolding js_sort_def by (induction xs) (auto simp: mset_insort_cmp)

lemma set_js_sort: "set (js_sort cmp xs) = set xs"
  using mset_js_sort[of cmp xs] by (metis set_mset_mset)

lemma distinct_map_js_sort: "distinct (map f (js_sort cmp xs)) = distinct (map f xs)"
proof -
  have "mset (map f (js_sort cmp xs)) = mset (map f xs)"
    by (simp add: mset_js_sort)
  then show ?thesis by (rule mset_eq_imp_distinct_iff)
qed

lemma sorted_insort_cmp:
  assumes "\<forall>a \<in> insert x (set ys). \<forall>b \<in> insert x (set ys). (cmp a b \<le> 0) = (f a \<le> f b)"
    and "sorted (map f ys)"
  shows "sorted (map (f :: 'a \<Rightarrow> nat) (insort_cmp cmp x ys))"
  using assms
proof (induction ys)
  case Nil
  then show ?case by simp
next
  case (Cons y ys)
  show ?case
  proof (cases "cmp x y \<le> 0")
    case True
    with Cons.prems have "f x \<le> f y" by simp
    with Cons.prems(2) True show ?thesis by auto
  next
    case False
    with Cons.prems(1) have xy: "f y \<le> f x" by auto
    from Cons.prems have ih: "sorted (map f (insort_cmp cmp x ys))"
      by (intro Cons.IH) auto
    have "set (insort_cmp cmp x ys) = insert x (set ys)"
      using mset_insort_cmp[of cmp x ys] by (metis set_mset_mset set_mset_add_mset_insert)
    with Cons.prems(2) xy ih False show ?thesis by auto
  qed
qed

lemma sorted_js_sort:
  assumes "\<forall>a \<in> set xs. \<forall>b \<in> set xs. (cmp a b \<le> 0) = (f a \<le> f b)"
  shows "sorted (map (f :: 'a \<Rightarrow> nat) (js_sort cmp xs))"
  using assms
proof (induction xs)
  case Nil
  then show ?case by (simp add: js_sort_def)
next
  case (Cons x xs)
  have "sorted (map f (js_sort cmp xs))" using Cons by simp
  moreover have "\<forall>a \<in> insert x (set (js_sort cmp xs)). \<forall>b \<in> insert x (set (js_sort cmp xs)).
      (cmp a b \<le> 0) = (f a \<le> f b)"
    using Cons.prems by (simp add: set_js_sort)
  ultimately have "sorted (map f (insort_cmp cmp x (js_sort cmp xs)))"
    by (intro sorted_insort_cmp)
  then show ?case by (simp add: js_sort_def)
qed

lemma map_of_map_set: "map_of (map_set m k v) = (map_of m)(k \<mapsto> v)"
  by (induction m k v rule: map_set.induct) auto

lemma keys_map_set: "fst ` set (map_set m k v) = insert k (fst ` set m)"
  by (induction m k v rule: map_set.induct) auto

lemma distinct_map_set: "distinct (map fst m) \<Longrightarrow> distinct (map fst (map_set m k v))"
proof (induction m k v rule: map_set.induct)
  case (1 k v)
  then show ?case by simp
next
  case (2 k' v' m k v)
  show ?case
  proof (cases "k' = k")
    case True
    with "2.prems" show ?thesis by simp
  next
    case False
    with "2.prems" "2.IH" have "distinct (map fst (map_set m k v))" by simp
    moreover from "2.prems" False have "k' \<notin> fst ` set (map_set m k v)"
      by (simp add: keys_map_set)
    ultimately show ?thesis using False by simp
  qed
qed

lemma foldl_map_set:
  "distinct (map fst m) \<Longrightarrow>
   distinct (map fst (foldl (\<lambda>m p. map_set m (f p) p) m ps)) \<and>
   map_of (foldl (\<lambda>m p. map_set m (f p) p) m ps) = map_of m ++ map_of (rev (map (\<lambda>p. (f p, p)) ps))"
proof (induction ps arbitrary: m)
  case Nil
  then show ?case by simp
next
  case (Cons p ps)
  from Cons.IH[OF distinct_map_set[OF Cons.prems, of "f p" p]]
  show ?case by (simp add: map_of_map_set map_add_upd_left[symmetric] fun_eq_iff map_add_def split: option.splits)
qed

lemma map_of_rev_last:
  "map_of (rev (map (\<lambda>p. (f p, p)) ps)) k = Some q \<Longrightarrow>
   \<exists>i < length ps. ps ! i = q \<and> f q = k \<and> (\<forall>j. i < j \<and> j < length ps \<longrightarrow> f (ps ! j) \<noteq> k)"
proof (induction ps rule: rev_induct)
  case Nil
  then show ?case by simp
next
  case (snoc p ps)
  show ?case
  proof (cases "f p = k")
    case True
    with snoc.prems have "q = p" by simp
    with True show ?thesis by (intro exI[of _ "length ps"]) auto
  next
    case False
    with snoc.prems have "map_of (rev (map (\<lambda>p. (f p, p)) ps)) k = Some q" by simp
    from snoc.IH[OF this] obtain i where i: "i < length ps" "ps ! i = q" "f q = k"
      "\<forall>j. i < j \<and> j < length ps \<longrightarrow> f (ps ! j) \<noteq> k" by blast
    show ?thesis
    proof (intro exI[of _ i] conjI allI impI)
      show "i < length (ps @ [p])" using i(1) by simp
      show "(ps @ [p]) ! i = q" using i(1,2) by (simp add: nth_append)
      show "f q = k" by (rule i(3))
      show "f ((ps @ [p]) ! j) \<noteq> k" if "i < j \<and> j < length (ps @ [p])" for j
        using that i(4) False by (cases "j < length ps") (auto simp: nth_append)
    qed
  qed
qed

lemma byId_props:
  fixes ps :: "'a list" and f :: "'a \<Rightarrow> 'k"
  defines "byId \<equiv> foldl (\<lambda>m p. map_set m (f p) p) [] ps"
  shows "distinct (map f (map snd byId))"
    and "f ` set (map snd byId) = f ` set ps"
    and "\<forall>q \<in> set (map snd byId). \<exists>i < length ps. ps ! i = q \<and>
           (\<forall>j. i < j \<and> j < length ps \<longrightarrow> f (ps ! j) \<noteq> f q)"
proof -
  have d: "distinct (map fst byId)"
    and mo: "map_of byId = map_of (rev (map (\<lambda>p. (f p, p)) ps))"
    using foldl_map_set[of "[]" f ps] by (simp_all add: byId_def)
  have ent: "f v = k \<and> (\<exists>i < length ps. ps ! i = v \<and>
      (\<forall>j. i < j \<and> j < length ps \<longrightarrow> f (ps ! j) \<noteq> k))" if "(k, v) \<in> set byId" for k v
  proof -
    from that d have "map_of byId k = Some v" by simp
    with mo have "map_of (rev (map (\<lambda>p. (f p, p)) ps)) k = Some v" by simp
    from map_of_rev_last[OF this] show ?thesis by blast
  qed
  have keys: "map f (map snd byId) = map fst byId"
    using ent by (auto simp: case_prod_beta)
  show "distinct (map f (map snd byId))" unfolding keys by (rule d)
  have "f ` set (map snd byId) = fst ` set byId"
    using keys by (metis image_set list.map_comp set_map)
  also have "\<dots> = dom (map_of byId)" by (simp add: dom_map_of_conv_image_fst)
  also have "\<dots> = fst ` set (rev (map (\<lambda>p. (f p, p)) ps))"
    unfolding mo by (simp only: dom_map_of_conv_image_fst)
  also have "\<dots> = f ` set ps" by (simp add: image_image)
  finally show "f ` set (map snd byId) = f ` set ps" .
  show "\<forall>q \<in> set (map snd byId). \<exists>i < length ps. ps ! i = q \<and>
           (\<forall>j. i < j \<and> j < length ps \<longrightarrow> f (ps ! j) \<noteq> f q)"
  proof
    fix q assume "q \<in> set (map snd byId)"
    then obtain k where "(k, q) \<in> set byId" by auto
    from ent[OF this] show "\<exists>i < length ps. ps ! i = q \<and>
           (\<forall>j. i < j \<and> j < length ps \<longrightarrow> f (ps ! j) \<noteq> f q)" by auto
  qed
qed

lemma digit_not_space: "is_digit c \<Longrightarrow> \<not> is_space c"
  by (auto simp: is_digit_def is_space_def Let_def)

lemma trim_no_space: "\<forall>c \<in> set s. \<not> is_space c \<Longrightarrow> trim s = s"
proof -
  assume a: "\<forall>c \<in> set s. \<not> is_space c"
  have "dropWhile is_space xs = xs" if "\<forall>c \<in> set xs. \<not> is_space c" for xs
    using that by (cases xs) auto
  from this[of s] this[of "rev s"] a show ?thesis by (simp add: trim_def)
qed

lemma Number_digits: "list_all is_digit s \<Longrightarrow> Number s = Some (digits_val s)"
  using trim_no_space[of s] by (auto simp: Number_def Let_def list_all_iff digit_not_space)

lemma marker_qid_digits:
  assumes "marker_shape t m"
  shows "list_all is_digit (qid m)"
proof -
  from assms obtain d0 d1 q where
    f: "d0 < d1" "d1 \<le> q" "q < idx m + markerLen m" "idx m + markerLen m \<le> length t"
      "qid m = slice t d0 d1" "\<forall>k \<in> {d0 ..< d1}. is_digit (t ! k)"
    unfolding marker_shape_def by auto
  have "is_digit c" if "c \<in> set (slice t d0 d1)" for c
  proof -
    from that obtain i where i: "i < length (slice t d0 d1)" "c = slice t d0 d1 ! i"
      by (auto simp: in_set_conv_nth)
    from i(1) f have "i < d1 - d0" "d0 + i < length t" by (simp_all add: slice_def)
    with i(2) have "c = t ! (d0 + i)" by (simp add: slice_def)
    with f(6) \<open>i < d1 - d0\<close> show ?thesis by simp
  qed
  with f(5) show ?thesis by (simp add: list_all_iff)
qed

lemma spans_ids: "map questionId (spans t ms) = map qid ms"
  by (rule nth_equalityI) (simp_all add: spans_def Let_def)

lemma scan_markers_empty_text: "scan_markers [] 0 [] = Some []"
proof -
  have "Option.is_none (exec marker_re [] 0)" by code_simp
  then have "exec marker_re [] 0 = None" by (simp add: Option.is_none_def)
  then show ?thesis by (subst scan_markers.simps) simp
qed

lemma by_number_digits:
  "list_all is_digit a \<Longrightarrow> list_all is_digit b \<Longrightarrow>
   (by_number a b \<le> 0) = (digits_val a \<le> digits_val b)"
  by (simp add: by_number_def Number_digits)

text \<open>
  C3. Question ids in the result are distinct and each span is the last one that the
  text has for its id (the span of an earlier marker with the same id is dropped, not
  merged); the result is in ascending order of the numeric value of the ids; and the
  example of the specification evaluates as stated.
\<close>

theorem extractQaPairs_last_wins_sorted:
  "(extractQaPairs rawText = Some (res :: QaPair list) \<longrightarrow>
      sorted (map (\<lambda>q. digits_val (questionId q)) res) \<and>
      (\<forall>q \<in> set res. Number (questionId q) = Some (digits_val (questionId q))) \<and>
      distinct (map questionId res) \<and>
      (\<forall>ms. scan_markers (qa_text rawText) 0 [] = Some ms \<and> ms \<noteq> [] \<longrightarrow>
         questionId ` set res = questionId ` set (spans (qa_text rawText) ms) \<and>
         (\<forall>q \<in> set res. \<exists>i < length (spans (qa_text rawText) ms).
            spans (qa_text rawText) ms ! i = q \<and>
            (\<forall>j. i < j \<and> j < length (spans (qa_text rawText) ms) \<longrightarrow>
               questionId (spans (qa_text rawText) ms ! j) \<noteq> questionId q)))) \<and>
   extractQaPairs ''Q1: apple\<newline>Q2: banana\<newline>Q1: cherry'' =
     Some [\<lparr>questionId = ''1'', text' = ''cherry''\<rparr>, \<lparr>questionId = ''2'', text' = ''banana''\<rparr>]"
proof (intro conjI impI)
  show "extractQaPairs ''Q1: apple\<newline>Q2: banana\<newline>Q1: cherry'' =
     Some [\<lparr>questionId = ''1'', text' = ''cherry''\<rparr>, \<lparr>questionId = ''2'', text' = ''banana''\<rparr>]"
    by code_simp
next
  assume r: "extractQaPairs rawText = Some res"
  define t where "t = qa_text rawText"
  obtain ms0 where ms0: "scan_markers t 0 [] = Some ms0" and sh: "\<forall>m \<in> set ms0. marker_shape t m"
    using scan_markers_total[of t 0 "[]"] by auto
  define pairs where "pairs = spans t ms0"
  define byId where "byId = foldl (\<lambda>m p. map_set m (questionId p) p) [] pairs"
  define cmp :: "QaPair \<Rightarrow> QaPair \<Rightarrow> int"
    where "cmp = (\<lambda>a b. by_number (questionId a) (questionId b))"
  consider (empty) "t = []" | (nomark) "t \<noteq> []" "ms0 = []" | (marks) "t \<noteq> []" "ms0 \<noteq> []"
    by blast
  then have "sorted (map (\<lambda>q. digits_val (questionId q)) res) \<and>
      (\<forall>q \<in> set res. Number (questionId q) = Some (digits_val (questionId q))) \<and>
      distinct (map questionId res) \<and>
      (ms0 \<noteq> [] \<longrightarrow>
         questionId ` set res = questionId ` set pairs \<and>
         (\<forall>q \<in> set res. \<exists>i < length pairs. pairs ! i = q \<and>
            (\<forall>j. i < j \<and> j < length pairs \<longrightarrow> questionId (pairs ! j) \<noteq> questionId q)))"
  proof cases
    case empty
    with r have "res = []" by (simp add: extractQaPairs_def t_def)
    moreover from empty ms0 have "ms0 = []" by (simp add: scan_markers_empty_text)
    ultimately show ?thesis by simp
  next
    case nomark
    with r ms0 have res: "res = [\<lparr>questionId = ''1'', text' = t\<rparr>]"
      by (simp add: extractQaPairs_def t_def Let_def)
    have "list_all is_digit ''1''" by (simp add: is_digit_def)
    from Number_digits[OF this] res nomark show ?thesis by simp
  next
    case marks
    with r ms0 have res: "res = js_sort cmp (map snd byId)"
      by (simp add: extractQaPairs_def t_def [symmetric] Let_def byId_def pairs_def cmp_def)
    have sres: "set res = set (map snd byId)" by (simp add: res set_js_sort)
    note bp = byId_props[of questionId pairs, folded byId_def]
    have dig: "list_all is_digit (questionId q)" if "q \<in> set res" for q
    proof -
      from that sres bp(2) have "questionId q \<in> questionId ` set pairs" by blast
      also have "questionId ` set pairs = set (map questionId (spans t ms0))"
        by (simp add: pairs_def)
      finally have "questionId q \<in> set (map qid ms0)"
        by (simp only: spans_ids)
      then obtain m where "m \<in> set ms0" "questionId q = qid m" by auto
      with sh marker_qid_digits[of t m] show ?thesis by simp
    qed
    have "sorted (map (\<lambda>q. digits_val (questionId q)) (js_sort cmp (map snd byId)))"
    proof (rule sorted_js_sort, intro ballI)
      fix a b assume "a \<in> set (map snd byId)" "b \<in> set (map snd byId)"
      with sres dig have "list_all is_digit (questionId a)" "list_all is_digit (questionId b)"
        by simp_all
      then show "(cmp a b \<le> 0) = (digits_val (questionId a) \<le> digits_val (questionId b))"
        unfolding cmp_def by (rule by_number_digits)
    qed
    moreover have "\<forall>q \<in> set res. Number (questionId q) = Some (digits_val (questionId q))"
      using dig Number_digits by blast
    moreover have "distinct (map questionId res)"
      unfolding res distinct_map_js_sort by (rule bp(1))
    moreover have "questionId ` set res = questionId ` set pairs"
      unfolding sres by (rule bp(2))
    moreover have "\<forall>q \<in> set res. \<exists>i < length pairs. pairs ! i = q \<and>
            (\<forall>j. i < j \<and> j < length pairs \<longrightarrow> questionId (pairs ! j) \<noteq> questionId q)"
      unfolding sres by (rule bp(3))
    ultimately show ?thesis by (simp add: res)
  qed
  then show "sorted (map (\<lambda>q. digits_val (questionId q)) res)"
    and "\<forall>q \<in> set res. Number (questionId q) = Some (digits_val (questionId q))"
    and "distinct (map questionId res)"
    and "\<forall>ms. scan_markers (qa_text rawText) 0 [] = Some ms \<and> ms \<noteq> [] \<longrightarrow>
         questionId ` set res = questionId ` set (spans (qa_text rawText) ms) \<and>
         (\<forall>q \<in> set res. \<exists>i < length (spans (qa_text rawText) ms).
            spans (qa_text rawText) ms ! i = q \<and>
            (\<forall>j. i < j \<and> j < length (spans (qa_text rawText) ms) \<longrightarrow>
               questionId (spans (qa_text rawText) ms ! j) \<noteq> questionId q))"
    using ms0 by (simp_all add: t_def pairs_def)
qed

theorem extractQaPairs_last_wins_sorted_witness:
  "extractQaPairs ''Q1: apple\<newline>Q2: banana\<newline>Q1: cherry'' =
     Some [\<lparr>questionId = ''1'', text' = ''cherry''\<rparr>, \<lparr>questionId = ''2'', text' = ''banana''\<rparr>] \<and>
   sorted (map (\<lambda>q. digits_val (questionId q))
     [\<lparr>questionId = ''1'', text' = ''cherry''\<rparr>, \<lparr>questionId = ''2'', text' = ''banana''\<rparr>]) \<and>
   distinct (map questionId
     [\<lparr>questionId = ''1'', text' = ''cherry''\<rparr>, \<lparr>questionId = ''2'', text' = ''banana''\<rparr>])"
proof -
  note t = extractQaPairs_last_wins_sorted[of "''Q1: apple\<newline>Q2: banana\<newline>Q1: cherry''"
      "[\<lparr>questionId = ''1'', text' = ''cherry''\<rparr>, \<lparr>questionId = ''2'', text' = ''banana''\<rparr>]"]
  from t have e: "extractQaPairs ''Q1: apple\<newline>Q2: banana\<newline>Q1: cherry'' =
     Some [\<lparr>questionId = ''1'', text' = ''cherry''\<rparr>, \<lparr>questionId = ''2'', text' = ''banana''\<rparr>]"
    by (rule conjunct2)
  from t[THEN conjunct1, rule_format, OF e] e show ?thesis by blast
qed

lemma digit_facts:
  assumes "is_digit d"
  shows "\<not> is_space d" and "d \<noteq> CHR 0x0A" and "ascii_lower d \<noteq> ascii_lower CHR ''Q''"
proof -
  from assms show "\<not> is_space d" by (rule digit_not_space)
  from assms show "d \<noteq> CHR 0x0A" by (auto simp: is_digit_def)
  from assms have "ascii_lower d = d" by (auto simp: is_digit_def ascii_lower_def Let_def)
  moreover have "ascii_lower CHR ''Q'' = CHR ''q''" by code_simp
  moreover from assms have "d \<noteq> CHR ''q''" by (auto simp: is_digit_def)
  ultimately show "ascii_lower d \<noteq> ascii_lower CHR ''Q''" by simp
qed

lemma separator_facts:
  assumes "sep \<in> set '':.)-''"
  shows "\<not> is_space sep" and "\<not> is_digit sep"
  using assms by (auto simp: is_space_def is_digit_def)

lemma marker_re_at_start_run:
  assumes ds: "ds \<noteq> []" "length ds \<le> 3" "list_all is_digit ds"
    and w: "list_all is_space w"
    and sep: "sep \<in> set '':.)-''"
    and rest: "rest = [] \<or> \<not> is_space (hd rest)"
  shows "\<exists>ys. rmatch marker_re (ds @ w @ sep # rest) (0, Map.empty) =
           (length ds + length w + 1, [1 \<mapsto> (0, 0), 2 \<mapsto> (0, length ds)]) # ys"
proof -
  define t where "t = ds @ w @ sep # rest"
  define n where "n = length ds"
  define k where "k = length w"
  define c1 :: caps where "c1 = [1 \<mapsto> (0, 0)]"
  define c2 :: caps where "c2 = [1 \<mapsto> (0, 0), 2 \<mapsto> (0, n)]"
  have len: "length t = n + k + 1 + length rest" by (simp add: t_def n_def k_def)
  have td: "t ! j = ds ! j" if "j < n" for j using that by (simp add: t_def n_def nth_append)
  have tw: "t ! (n + j) = w ! j" if "j < k" for j
    using that by (simp add: t_def n_def k_def nth_append)
  have ts: "t ! (n + k) = sep" by (simp add: t_def n_def k_def nth_append)
  have tr: "t ! (n + k + 1) = hd rest" if "rest \<noteq> []"
    using that by (cases rest) (simp_all add: t_def n_def k_def nth_append)
  from ds have n0: "0 < n" "n \<le> 3" by (simp_all add: n_def)
  have dig: "is_digit (t ! j)" if "j < n" for j
    using that ds(3) td by (simp add: list_all_length n_def)
  have spc: "is_space (t ! (n + j))" if "j < k" for j
    using that w tw by (simp add: list_all_length k_def)
  from dig[of 0] n0 have d0: "is_digit (t ! 0)" by simp
  note df = digit_facts[OF d0]
  note sf = separator_facts[OF sep]
  have g1: "\<exists>ys. rmatch (Grp 1 (Alt Bol (chr CHR 0x0A))) t (0, Map.empty) = (0, c1) # ys"
    by (simp add: c1_def)
  have s1: "\<exists>ys. rmatch (Star ws) t (0, c1) = (0, c1) # ys"
    using Star_Cls_hd_run[of 0 0 t is_space c1] df(1) by (simp add: ws_def)
  have q1: "\<exists>ys. rmatch (Rep 0 1 (Seq (chr_i CHR ''Q'') (Seq (Rep 0 1 (lit_i ''uestion'')) (Star ws)))) t (0, c1)
      = (0, c1) # ys"
    using df(3) by (simp add: chr_i_def)
  have "\<exists>ys. rmatch (Rep 1 3 (Cls is_digit)) t (0, c1) = (0 + n, c1) # ys"
  proof (rule Rep_Cls_hd_run)
    show "1 \<le> n" using n0 by simp
    show "n \<le> 3" by (rule n0(2))
    show "0 + n \<le> length t" by (simp add: len)
    show "\<forall>j < n. is_digit (t ! (0 + j))" using dig by simp
    show "n < 3 \<longrightarrow> 0 + n < length t \<longrightarrow> \<not> is_digit (t ! (0 + n))"
    proof (cases "k = 0")
      case True
      with ts sf(2) show ?thesis by simp
    next
      case False
      with spc[of 0] digit_not_space[of "t ! n"] show ?thesis by auto
    qed
  qed
  then obtain ys where r: "rmatch (Rep 1 3 (Cls is_digit)) t (0, c1) = (n, c1) # ys"
    by (auto simp del: rmatch.simps(7))
  have g2: "\<exists>ys. rmatch (Grp 2 (Rep 1 3 digit)) t (0, c1) = (n, c2) # ys"
    unfolding digit_def rmatch.simps(8) r by (simp add: c2_def c1_def)
  have s2: "\<exists>ys. rmatch (Star ws) t (n, c2) = (n + k, c2) # ys"
    unfolding ws_def
  proof (rule Star_Cls_hd_run)
    show "n + k \<le> length t" by (simp add: len)
    show "\<forall>j < k. is_space (t ! (n + j))" using spc by simp
    show "n + k < length t \<longrightarrow> \<not> is_space (t ! (n + k))" using ts sf(1) by simp
  qed
  have p1: "\<exists>ys. rmatch (Cls (\<lambda>c. c \<in> set '':.)-'')) t (n + k, c2) = (n + k + 1, c2) # ys"
    using ts sep by (simp add: len)
  have s3: "\<exists>ys. rmatch (Star ws) t (n + k + 1, c2) = (n + k + 1, c2) # ys"
  proof -
    have x: "n + k + 1 + 0 \<le> length t" by (simp add: len)
    have y: "n + k + 1 + 0 < length t \<longrightarrow> \<not> is_space (t ! (n + k + 1 + 0))"
    proof
      assume "n + k + 1 + 0 < length t"
      then have "rest \<noteq> []" by (simp add: len)
      with tr rest show "\<not> is_space (t ! (n + k + 1 + 0))" by simp
    qed
    have z: "\<forall>j < 0. is_space (t ! (n + k + 1 + j))" by simp
    from Star_Cls_hd_run[OF x z y, of c2] show ?thesis by (simp add: ws_def)
  qed
  from p1 s3 have a: "\<exists>ys. rmatch (Seq (Cls (\<lambda>c. c \<in> set '':.)-'')) (Star ws)) t (n + k, c2)
      = (n + k + 1, c2) # ys"
    by (blast dest: rmatch_Seq_hdI)
  from s2 a have b: "\<exists>ys. rmatch (Seq (Star ws) (Seq (Cls (\<lambda>c. c \<in> set '':.)-'')) (Star ws))) t (n, c2)
      = (n + k + 1, c2) # ys"
    by (blast dest: rmatch_Seq_hdI)
  from g2 b have c: "\<exists>ys. rmatch (Seq (Grp 2 (Rep 1 3 digit))
      (Seq (Star ws) (Seq (Cls (\<lambda>c. c \<in> set '':.)-'')) (Star ws)))) t (0, c1)
      = (n + k + 1, c2) # ys"
    by (blast dest: rmatch_Seq_hdI)
  from q1 c have d: "\<exists>ys. rmatch (Seq (Rep 0 1 (Seq (chr_i CHR ''Q'') (Seq (Rep 0 1 (lit_i ''uestion'')) (Star ws))))
      (Seq (Grp 2 (Rep 1 3 digit))
      (Seq (Star ws) (Seq (Cls (\<lambda>c. c \<in> set '':.)-'')) (Star ws))))) t (0, c1)
      = (n + k + 1, c2) # ys"
    by (blast dest: rmatch_Seq_hdI)
  from s1 d have e: "\<exists>ys. rmatch (Seq (Star ws)
      (Seq (Rep 0 1 (Seq (chr_i CHR ''Q'') (Seq (Rep 0 1 (lit_i ''uestion'')) (Star ws))))
      (Seq (Grp 2 (Rep 1 3 digit))
      (Seq (Star ws) (Seq (Cls (\<lambda>c. c \<in> set '':.)-'')) (Star ws)))))) t (0, c1)
      = (n + k + 1, c2) # ys"
    by (blast dest: rmatch_Seq_hdI)
  from g1 e have "\<exists>ys. rmatch marker_re t (0, Map.empty) = (n + k + 1, c2) # ys"
    unfolding marker_re_def by (blast dest: rmatch_Seq_hdI)
  then show ?thesis by (simp add: t_def n_def k_def c2_def)
qed

lemma scan_marker_at_start:
  assumes "ds \<noteq> []" and "length ds \<le> 3" and "list_all is_digit ds"
    and "list_all is_space w" and "sep \<in> set '':.)-''"
    and "rest = [] \<or> \<not> is_space (hd rest)"
  shows "\<exists>ms. scan_markers (ds @ w @ sep # rest) 0 [] =
           Some (\<lparr>idx = 0, qid = ds, markerLen = length ds + length w + 1\<rparr> # ms)"
proof -
  from marker_re_at_start_run[OF assms] obtain ys where
    r: "rmatch marker_re (ds @ w @ sep # rest) (0, Map.empty) =
      (length ds + length w + 1, [1 \<mapsto> (0, 0), 2 \<mapsto> (0, length ds)]) # ys" ..
  have ex: "exec marker_re (ds @ w @ sep # rest) 0 =
      Some (0, length ds + length w + 1, [1 \<mapsto> (0, 0), 2 \<mapsto> (0, length ds)])"
    by (simp add: exec_def r upt_conv_Cons del: upt_Suc)
  have "scan_markers (ds @ w @ sep # rest) 0 [] =
      scan_markers (ds @ w @ sep # rest) (length ds + length w + 1)
        [\<lparr>idx = 0, qid = ds, markerLen = length ds + length w + 1\<rparr>]"
    by (subst scan_markers.simps) (simp add: ex group_len_def group_str_def slice_def)
  with scan_markers_total[of "ds @ w @ sep # rest" "length ds + length w + 1"
      "[\<lparr>idx = 0, qid = ds, markerLen = length ds + length w + 1\<rparr>]"]
  show ?thesis by auto
qed

lemma marker_shape_tight:
  "marker_shape ''1. a'' \<lparr>idx = 0, qid = ''1'', markerLen = 3\<rparr> \<and>
   \<not> marker_shape ''1. a'' \<lparr>idx = 0, qid = ''1'', markerLen = 2\<rparr>"
proof
  show "marker_shape ''1. a'' \<lparr>idx = 0, qid = ''1'', markerLen = 3\<rparr>"
    unfolding marker_shape_def
    by (intro bexI[of _ 0] bexI[of _ 1] bexI[of _ 1]) (simp_all add: slice_def is_digit_def is_space_def)
  have "is_space (''1. a'' ! 2)" by code_simp
  then show "\<not> marker_shape ''1. a'' \<lparr>idx = 0, qid = ''1'', markerLen = 2\<rparr>"
    by (simp add: marker_shape_def)
qed

text \<open>
  C8 (as amended). Every marker that the scan records consists of an optional prefix,
  one to three decimal digits (the question id), optional white space, one separator
  among \<^verbatim>\<open>: . ) -\<close>, and all the white space that follows the separator: the marker ends
  at the end of the text or before a character that is not white space. White space
  after the separator is not required: a text that starts with one to three digits,
  optional white space, a separator and then a character that is not white space, or
  nothing, has the marker made of these digits, this white space and this separator.
\<close>

theorem marker_recognised_shape:
  "(scan_markers (qa_text rawText) 0 [] = Some ms \<and> m \<in> set ms \<longrightarrow>
      marker_shape (qa_text rawText) m) \<and>
   (ds \<noteq> [] \<and> length ds \<le> 3 \<and> list_all is_digit ds \<and> list_all is_space w \<and>
    sep \<in> set '':.)-'' \<and> (rest = [] \<or> \<not> is_space (hd rest)) \<longrightarrow>
      (\<exists>ms'. scan_markers (ds @ w @ sep # rest) 0 [] =
         Some (\<lparr>idx = 0, qid = ds, markerLen = length ds + length w + 1\<rparr> # ms')))"
  using scan_markers_total[of "qa_text rawText" 0 "[]"] scan_marker_at_start[of ds w sep rest]
  by auto

theorem marker_recognised_shape_witness:
  "scan_markers (qa_text ''1. a'') 0 [] = Some [\<lparr>idx = 0, qid = ''1'', markerLen = 3\<rparr>] \<and>
   marker_shape (qa_text ''1. a'') \<lparr>idx = 0, qid = ''1'', markerLen = 3\<rparr> \<and>
   list_all is_digit ''12'' \<and> list_all is_space '' '' \<and> CHR '')'' \<in> set '':.)-'' \<and>
   \<not> is_space (hd ''x'') \<and>
   (\<exists>ms'. scan_markers ''12 )x'' 0 [] = Some (\<lparr>idx = 0, qid = ''12'', markerLen = 4\<rparr> # ms'))"
proof -
  have s: "scan_markers (qa_text ''1. a'') 0 [] = Some [\<lparr>idx = 0, qid = ''1'', markerLen = 3\<rparr>]"
    by code_simp
  have c: "list_all is_digit ''12''" "list_all is_space '' ''" "CHR '')'' \<in> set '':.)-''"
    "\<not> is_space (hd ''x'')"
    by code_simp+
  note t = marker_recognised_shape[of "''1. a''" "[\<lparr>idx = 0, qid = ''1'', markerLen = 3\<rparr>]"
      "\<lparr>idx = 0, qid = ''1'', markerLen = 3\<rparr>" "''12''" "'' ''" "CHR '')''" "''x''"]
  from t s have a: "marker_shape (qa_text ''1. a'') \<lparr>idx = 0, qid = ''1'', markerLen = 3\<rparr>"
    by simp
  from t c have b: "\<exists>ms'. scan_markers ''12 )x'' 0 [] =
      Some (\<lparr>idx = 0, qid = ''12'', markerLen = 4\<rparr> # ms')"
    by (simp add: eval_nat_numeral)
  from s a c b show ?thesis by simp
qed

text \<open>
  The marker of the text "1.apple": its separator is the last character of the marker,
  and the character after it is a letter. The marker of the text "1 . apple": its digit
  is followed by a space, and the separator comes after the space.
\<close>

theorem marker_without_space_counterexample:
  "qa_text ''1.apple'' = ''1.apple'' \<and>
   scan_markers ''1.apple'' 0 [] = Some [\<lparr>idx = 0, qid = ''1'', markerLen = 2\<rparr>] \<and>
   ''1.apple'' ! 1 = CHR ''.'' \<and> ''1.apple'' ! 2 = CHR ''a'' \<and> \<not> is_space (CHR ''a'') \<and>
   extractQaPairs ''1.apple'' = Some [\<lparr>questionId = ''1'', text' = ''apple''\<rparr>] \<and>
   qa_text ''1 . apple'' = ''1 . apple'' \<and>
   scan_markers ''1 . apple'' 0 [] = Some [\<lparr>idx = 0, qid = ''1'', markerLen = 4\<rparr>] \<and>
   ''1 . apple'' ! 1 = CHR '' '' \<and> ''1 . apple'' ! 2 = CHR ''.'' \<and>
   extractQaPairs ''1 . apple'' = Some [\<lparr>questionId = ''1'', text' = ''apple''\<rparr>]"
  by code_simp

section \<open>Score extraction\<close>

datatype score_method = Fraction | OutOf | Label | Fallback

record ScoreCandidate =
  obtained :: nat
  outOf :: "real option"
  raw :: string

record ExtractedScore =
  obtained :: "nat option"
  outOf :: "real option"
  confidence :: real
  method' :: score_method
  candidates :: "ScoreCandidate list"

definition normalize :: "string \<Rightarrow> string" where
  \<comment> \<open>\<^verbatim>\<open>s.toLowerCase().replace(/\r\n/g, "\n").replace(/[ \t]+/g, " ").trim()\<close>\<close>
  "normalize s =
     trim (replace_all (plus (Cls (\<lambda>c. c = CHR '' '' \<or> c = CHR 0x09))) '' ''
       (replace_all (Seq (chr CHR 0x0D) (chr CHR 0x0A)) ''\<newline>'' (toLowerCase s)))"

definition fraction_re :: rx where
  \<comment> \<open>\<^verbatim>\<open>/\b(\d{1,3})\s*\/\s*(\d{1,3})\b/g\<close>\<close>
  "fraction_re =
     Seq Wordb (Seq (Grp 1 (Rep 1 3 digit)) (Seq (Star ws) (Seq (chr CHR ''/'')
    (Seq (Star ws) (Seq (Grp 2 (Rep 1 3 digit)) Wordb)))))"

definition out_of_re :: rx where
  \<comment> \<open>\<^verbatim>\<open>/\b(\d{1,3})\s*(?:out\s*of)\s*(\d{1,3})\b/g\<close>\<close>
  "out_of_re =
     Seq Wordb (Seq (Grp 1 (Rep 1 3 digit)) (Seq (Star ws) (Seq (lit ''out'')
    (Seq (Star ws) (Seq (lit ''of'') (Seq (Star ws) (Seq (Grp 2 (Rep 1 3 digit)) Wordb)))))))"

definition number_re :: rx where
  \<comment> \<open>\<^verbatim>\<open>/\b(\d{1,3})\b/\<close>\<close>
  "number_re = Seq Wordb (Seq (Grp 1 (Rep 1 3 digit)) Wordb)"

definition label_re :: "string \<Rightarrow> rx" where
  \<comment> \<open>\<^verbatim>\<open>new RegExp(`\\b${escapeRe(labelHint)}\\b`, "g")\<close>: the escaped hint matches itself,
      character by character\<close>
  "label_re labelHint = Seq Wordb (Seq (lit labelHint) Wordb)"

definition pair_candidate :: "string \<Rightarrow> nat \<times> nat \<times> caps \<Rightarrow> ScoreCandidate option" where
  \<comment> \<open>the body of the two candidate loops; \<open>None\<close> is \<^verbatim>\<open>continue\<close>\<close>
  "pair_candidate t m =
     (case m of (index, e, c) \<Rightarrow>
        (case (Number (group_str t c 1), Number (group_str t c 2)) of
           (Some ob, Some oo) \<Rightarrow>
             if oo \<le> 0 then None
             else if ob < 0 \<or> ob > oo then None
             else Some \<lparr>ScoreCandidate.obtained = ob, ScoreCandidate.outOf = Some (real oo), raw = slice t index e\<rparr>
         | _ \<Rightarrow> None))"

definition pair_candidates :: "rx \<Rightarrow> string \<Rightarrow> ScoreCandidate list" where
  "pair_candidates re t = List.map_filter (pair_candidate t) (match_all re t 0)"

definition scan_candidates :: "string \<Rightarrow> ScoreCandidate list" where
  \<comment> \<open>\<^verbatim>\<open>candidates\<close> after the two loops, for the normalised text\<close>
  "scan_candidates t = pair_candidates fraction_re t @ pair_candidates out_of_re t"

definition score :: "real option \<Rightarrow> ScoreCandidate \<Rightarrow> real" where
  "score expectedOutOf c =
     (case ScoreCandidate.outOf c of None \<Rightarrow> 0 | Some n \<Rightarrow> n)
     + (if expectedOutOf \<noteq> None \<and> ScoreCandidate.outOf c = expectedOutOf then 1000 else 0)
     + (if CHR ''/'' \<in> set (raw c) then 5 else 0)"

definition pickBestPair :: "ScoreCandidate list \<Rightarrow> real option \<Rightarrow> ScoreCandidate option" where
  "pickBestPair cands expectedOutOf =
     (if length cands = 0 then None
      else
        let scored = map (\<lambda>c. (c, score expectedOutOf c)) cands;
            sorted = js_sort (\<lambda>a b. snd b - snd a) scored
        in Some (fst (hd sorted)))"

fun near_label :: "string \<Rightarrow> real \<Rightarrow> (nat \<times> nat \<times> caps) list \<Rightarrow> nat option" where
  "near_label t expectedOutOf [] = None"
| "near_label t expectedOutOf ((start, e, c) # ms) =
     (let window = slice t start (min (length t) (start + 60)) in
      case exec number_re window 0 of
        None \<Rightarrow> near_label t expectedOutOf ms
      | Some (i, j, nm) \<Rightarrow>
          (case Number (group_str window nm 1) of
             None \<Rightarrow> near_label t expectedOutOf ms
           | Some ob \<Rightarrow>
               if 0 \<le> ob \<and> real ob \<le> expectedOutOf then Some ob
               else near_label t expectedOutOf ms))"

definition findNearLabelNumber :: "string \<Rightarrow> string \<Rightarrow> real \<Rightarrow> nat option" where
  "findNearLabelNumber t labelHint expectedOutOf =
     near_label t expectedOutOf (match_all (label_re labelHint) t 0)"

fun String :: "nat \<Rightarrow> string" where
  "String n = (if n < 10 then [char_of (48 + n)] else String (n div 10) @ [char_of (48 + n mod 10)])"

declare String.simps [simp del]

definition label_hint :: "string option \<Rightarrow> string" where
  \<comment> \<open>\<^verbatim>\<open>(params.labelHint || "marks").toLowerCase()\<close>\<close>
  "label_hint labelHint0 =
     toLowerCase (case labelHint0 of None \<Rightarrow> ''marks'' | Some h \<Rightarrow> if h = [] then ''marks'' else h)"

definition extractScoreFromText :: "string \<Rightarrow> real option \<Rightarrow> string option \<Rightarrow> ExtractedScore" where
  \<comment> \<open>\<open>expectedOutOf\<close> is \<open>None\<close> when the parameter is absent or not finite\<close>
  "extractScoreFromText text0 expectedOutOf labelHint0 =
     (let t = normalize text0;
          labelHint = label_hint labelHint0;
          cands = scan_candidates t
      in
      case pickBestPair cands expectedOutOf of
        Some bestPair \<Rightarrow>
          \<lparr>obtained = Some (ScoreCandidate.obtained bestPair),
           outOf = ScoreCandidate.outOf bestPair,
           confidence = (if expectedOutOf \<noteq> None \<and> expectedOutOf \<noteq> Some 0
                            \<and> ScoreCandidate.outOf bestPair = expectedOutOf then 0.95 else 0.85),
           method' = (if CHR ''/'' \<in> set (raw bestPair) then Fraction else OutOf),
           candidates = cands\<rparr>
      | None \<Rightarrow>
          (case (case expectedOutOf of None \<Rightarrow> None
                 | Some eo \<Rightarrow> map_option (\<lambda>ob. (ob, eo)) (findNearLabelNumber t labelHint eo)) of
             Some (ob, eo) \<Rightarrow>
               \<lparr>obtained = Some ob, outOf = Some eo, confidence = 0.65, method' = Label,
                candidates = cands @ [\<lparr>ScoreCandidate.obtained = ob, ScoreCandidate.outOf = Some eo,
                                        raw = labelHint @ '': '' @ String ob\<rparr>]\<rparr>
           | None \<Rightarrow>
               (let nums = filter (\<lambda>n. 0 \<le> n \<and> n \<le> 100)
                             (List.map_filter (\<lambda>m. case m of (i, j, c) \<Rightarrow> Number (group_str t c 1))
                                (match_all number_re t 0))
                in case nums of
                     ob # _ \<Rightarrow>
                       \<lparr>obtained = Some ob, outOf = expectedOutOf, confidence = 0.25,
                        method' = Fallback,
                        candidates = cands @ [\<lparr>ScoreCandidate.obtained = ob,
                                                ScoreCandidate.outOf = expectedOutOf,
                                                raw = String ob\<rparr>]\<rparr>
                   | [] \<Rightarrow>
                       \<lparr>obtained = None, outOf = expectedOutOf, confidence = 0,
                        method' = Fallback, candidates = cands\<rparr>)))"

lemma hd_insort_cmp:
  "hd (insort_cmp cmp x ys) = (if ys = [] then x else if cmp x (hd ys) \<le> 0 then x else hd ys)"
  by (cases ys) auto

lemma js_sort_Nil_iff: "js_sort cmp xs = [] \<longleftrightarrow> xs = []"
  using mset_js_sort[of cmp xs] by (metis mset_zero_iff)

lemma hd_js_sort_Cons:
  "hd (js_sort cmp (x # xs)) =
     (if xs = [] then x else if cmp x (hd (js_sort cmp xs)) \<le> 0 then x else hd (js_sort cmp xs))"
proof -
  have "js_sort cmp (x # xs) = insort_cmp cmp x (js_sort cmp xs)" by (simp add: js_sort_def)
  then show ?thesis by (simp add: hd_insort_cmp js_sort_Nil_iff)
qed

lemma hd_js_sort_first_max:
  fixes g :: "'a \<Rightarrow> real"
  assumes "xs \<noteq> []"
  shows "\<exists>i < length xs. hd (js_sort (\<lambda>a b. g b - g a) xs) = xs ! i \<and>
           (\<forall>j < i. g (xs ! j) < g (xs ! i)) \<and> (\<forall>j < length xs. g (xs ! j) \<le> g (xs ! i))"
  using assms
proof (induction xs)
  case Nil
  then show ?case by simp
next
  case (Cons x xs)
  show ?case
  proof (cases "xs = []")
    case True
    then show ?thesis by (simp add: js_sort_def)
  next
    case False
    from Cons.IH[OF False] obtain i where i: "i < length xs"
      "hd (js_sort (\<lambda>a b. g b - g a) xs) = xs ! i"
      "\<forall>j < i. g (xs ! j) < g (xs ! i)" "\<forall>j < length xs. g (xs ! j) \<le> g (xs ! i)" by blast
    show ?thesis
    proof (cases "g (xs ! i) \<le> g x")
      case True
      with False i(2) have h: "hd (js_sort (\<lambda>a b. g b - g a) (x # xs)) = x"
        by (simp add: hd_js_sort_Cons)
      have "g ((x # xs) ! j) \<le> g x" if "j < length (x # xs)" for j
        using that i(4) True by (cases j) (auto intro: order_trans)
      with h show ?thesis by (intro exI[of _ 0]) simp
    next
      case gt: False
      with False i(2) have h: "hd (js_sort (\<lambda>a b. g b - g a) (x # xs)) = xs ! i"
        by (simp add: hd_js_sort_Cons)
      have a: "g ((x # xs) ! j) < g (xs ! i)" if "j < Suc i" for j
        using that i(3) gt by (cases j) auto
      have b: "g ((x # xs) ! j) \<le> g (xs ! i)" if "j < length (x # xs)" for j
        using that i(4) gt by (cases j) auto
      from h a b i(1) show ?thesis by (intro exI[of _ "Suc i"]) simp
    qed
  qed
qed

lemma pickBestPair_first_max:
  assumes "cands \<noteq> []"
  shows "\<exists>i < length cands. pickBestPair cands e = Some (cands ! i) \<and>
           (\<forall>j < i. score e (cands ! j) < score e (cands ! i)) \<and>
           (\<forall>j < length cands. score e (cands ! j) \<le> score e (cands ! i))"
proof -
  define scored where "scored = map (\<lambda>c. (c, score e c)) cands"
  from assms have "scored \<noteq> []" by (simp add: scored_def)
  from hd_js_sort_first_max[OF this, of snd] obtain i where i: "i < length scored"
    "hd (js_sort (\<lambda>a b. snd b - snd a) scored) = scored ! i"
    "\<forall>j < i. snd (scored ! j) < snd (scored ! i)"
    "\<forall>j < length scored. snd (scored ! j) \<le> snd (scored ! i)" by blast
  from i(1) have il: "i < length cands" by (simp add: scored_def)
  have nth: "scored ! j = (cands ! j, score e (cands ! j))" if "j < length cands" for j
    using that by (simp add: scored_def)
  have "pickBestPair cands e = Some (cands ! i)"
    using assms i(2) il by (simp add: pickBestPair_def Let_def scored_def[symmetric] nth)
  moreover have "\<forall>j < i. score e (cands ! j) < score e (cands ! i)"
    using i(3) il by (simp add: nth)
  moreover have "\<forall>j < length cands. score e (cands ! j) \<le> score e (cands ! i)"
    using i(4) il by (simp add: nth scored_def)
  ultimately show ?thesis using il by blast
qed

lemma pair_candidate_outOf:
  "pair_candidate t m = Some c \<Longrightarrow>
   \<exists>n. ScoreCandidate.outOf c = Some (real n) \<and> 0 < n \<and> ScoreCandidate.obtained c \<le> n"
  by (auto simp: pair_candidate_def split: prod.splits option.splits if_splits)

lemma in_set_map_filter: "y \<in> set (List.map_filter f xs) \<longleftrightarrow> (\<exists>x \<in> set xs. f x = Some y)"
  by (induction xs) (auto split: option.splits)

lemma scan_candidates_outOf:
  assumes "c \<in> set (scan_candidates t)"
  shows "\<exists>n. ScoreCandidate.outOf c = Some (real n) \<and> 0 < n \<and> ScoreCandidate.obtained c \<le> n"
proof -
  from assms obtain re m where "pair_candidate t m = Some c"
    by (auto simp: scan_candidates_def pair_candidates_def in_set_map_filter)
  then show ?thesis by (rule pair_candidate_outOf)
qed

text \<open>
  C10. The confidence of every result of \<open>extractScoreFromText\<close> is one of the five
  values 0, 0.25, 0.65, 0.85 and 0.95, so it lies between 0 and 1.
\<close>

theorem extractScoreFromText_confidence:
  "confidence (extractScoreFromText text0 expectedOutOf labelHint0) \<in> {0, 0.25, 0.65, 0.85, 0.95} \<and>
   0 \<le> confidence (extractScoreFromText text0 expectedOutOf labelHint0) \<and>
   confidence (extractScoreFromText text0 expectedOutOf labelHint0) \<le> 1"
  by (simp add: extractScoreFromText_def Let_def split: option.split list.split prod.split)

text \<open>
  C4. When the fraction and out-of scans find candidates, the result is taken from the
  candidate with the greatest score (its \<open>outOf\<close>, plus 1000 when \<open>outOf\<close> is the expected
  total, plus 5 when its text has a slash), the earliest such candidate in order of
  discovery; the method is \<open>Fraction\<close> exactly when the text of the winner has a slash,
  and the confidence is 0.95 when the winner's \<open>outOf\<close> is a supplied expected total, and
  0.85 otherwise.
\<close>

theorem extractScoreFromText_best_pair:
  assumes "scan_candidates (normalize text0) \<noteq> []"
  shows "\<exists>i < length (scan_candidates (normalize text0)).
    (let cands = scan_candidates (normalize text0);
         w = cands ! i;
         r = extractScoreFromText text0 expectedOutOf labelHint0
     in (\<forall>c \<in> set cands. \<exists>n. ScoreCandidate.outOf c = Some n \<and>
            score expectedOutOf c =
              n + (if expectedOutOf = Some n then 1000 else 0)
                + (if CHR ''/'' \<in> set (raw c) then 5 else 0)) \<and>
        (\<forall>j < length cands. score expectedOutOf (cands ! j) \<le> score expectedOutOf w) \<and>
        (\<forall>j < i. score expectedOutOf (cands ! j) < score expectedOutOf w) \<and>
        pickBestPair cands expectedOutOf = Some w \<and>
        obtained r = Some (ScoreCandidate.obtained w) \<and>
        outOf r = ScoreCandidate.outOf w \<and>
        method' r = (if CHR ''/'' \<in> set (raw w) then Fraction else OutOf) \<and>
        confidence r = (if ScoreCandidate.outOf w = expectedOutOf then 0.95 else 0.85))"
proof -
  define cands where "cands = scan_candidates (normalize text0)"
  from assms have ne: "cands \<noteq> []" by (simp add: cands_def)
  from pickBestPair_first_max[OF ne, of expectedOutOf] obtain i where i: "i < length cands"
    "pickBestPair cands expectedOutOf = Some (cands ! i)"
    "\<forall>j < i. score expectedOutOf (cands ! j) < score expectedOutOf (cands ! i)"
    "\<forall>j < length cands. score expectedOutOf (cands ! j) \<le> score expectedOutOf (cands ! i)"
    by blast
  have sc: "\<exists>n. ScoreCandidate.outOf c = Some n \<and>
      score expectedOutOf c = n + (if expectedOutOf = Some n then 1000 else 0)
        + (if CHR ''/'' \<in> set (raw c) then 5 else 0)" if "c \<in> set cands" for c
  proof -
    from scan_candidates_outOf[of c "normalize text0"] that obtain n where
      "ScoreCandidate.outOf c = Some (real n)" unfolding cands_def by blast
    then show ?thesis by (auto simp: score_def)
  qed
  from i(1) have "cands ! i \<in> set cands" by simp
  from scan_candidates_outOf[of "cands ! i" "normalize text0"] this obtain n where
    n: "ScoreCandidate.outOf (cands ! i) = Some (real n)" "0 < n"
    unfolding cands_def by blast
  have conf: "(expectedOutOf \<noteq> None \<and> expectedOutOf \<noteq> Some 0 \<and>
      ScoreCandidate.outOf (cands ! i) = expectedOutOf) =
      (ScoreCandidate.outOf (cands ! i) = expectedOutOf)"
    using n by auto
  define r where "r = extractScoreFromText text0 expectedOutOf labelHint0"
  have r: "obtained r = Some (ScoreCandidate.obtained (cands ! i))"
    "outOf r = ScoreCandidate.outOf (cands ! i)"
    "method' r = (if CHR ''/'' \<in> set (raw (cands ! i)) then Fraction else OutOf)"
    "confidence r = (if expectedOutOf \<noteq> None \<and> expectedOutOf \<noteq> Some 0 \<and>
      ScoreCandidate.outOf (cands ! i) = expectedOutOf then 0.95 else 0.85)"
    unfolding r_def extractScoreFromText_def Let_def cands_def[symmetric] i(2)
    by simp_all
  show ?thesis
    unfolding Let_def cands_def[symmetric] r_def[symmetric]
    using i sc r(1,2,3) r(4)[unfolded conf] by (intro exI[of _ i]) simp
qed

theorem extractScoreFromText_best_pair_witness:
  "scan_candidates (normalize ''2 out of 5 then 3/10 then 4/10'') \<noteq> [] \<and>
   scan_candidates (normalize ''2 out of 5 then 3/10 then 4/10'') =
     [\<lparr>ScoreCandidate.obtained = 3, ScoreCandidate.outOf = Some 10, raw = ''3/10''\<rparr>,
      \<lparr>ScoreCandidate.obtained = 4, ScoreCandidate.outOf = Some 10, raw = ''4/10''\<rparr>,
      \<lparr>ScoreCandidate.obtained = 2, ScoreCandidate.outOf = Some 5, raw = ''2 out of 5''\<rparr>] \<and>
   score (Some 10) \<lparr>ScoreCandidate.obtained = 3, ScoreCandidate.outOf = Some 10, raw = ''3/10''\<rparr> = 1015 \<and>
   score (Some 10) \<lparr>ScoreCandidate.obtained = 4, ScoreCandidate.outOf = Some 10, raw = ''4/10''\<rparr> = 1015 \<and>
   score (Some 10) \<lparr>ScoreCandidate.obtained = 2, ScoreCandidate.outOf = Some 5, raw = ''2 out of 5''\<rparr> = 5 \<and>
   pickBestPair (scan_candidates (normalize ''2 out of 5 then 3/10 then 4/10'')) (Some 10) =
     Some \<lparr>ScoreCandidate.obtained = 3, ScoreCandidate.outOf = Some 10, raw = ''3/10''\<rparr> \<and>
   obtained (extractScoreFromText ''2 out of 5 then 3/10 then 4/10'' (Some 10) None) = Some 3 \<and>
   outOf (extractScoreFromText ''2 out of 5 then 3/10 then 4/10'' (Some 10) None) = Some 10 \<and>
   method' (extractScoreFromText ''2 out of 5 then 3/10 then 4/10'' (Some 10) None) = Fraction \<and>
   confidence (extractScoreFromText ''2 out of 5 then 3/10 then 4/10'' (Some 10) None) = 0.95"
proof -
  define c0 where "c0 = \<lparr>ScoreCandidate.obtained = 3, ScoreCandidate.outOf = Some 10, raw = ''3/10''\<rparr>"
  define c1 where "c1 = \<lparr>ScoreCandidate.obtained = 4, ScoreCandidate.outOf = Some 10, raw = ''4/10''\<rparr>"
  define c2 where "c2 = \<lparr>ScoreCandidate.obtained = 2, ScoreCandidate.outOf = Some 5, raw = ''2 out of 5''\<rparr>"
  define r where "r = extractScoreFromText ''2 out of 5 then 3/10 then 4/10'' (Some 10) None"
  have c: "scan_candidates (normalize ''2 out of 5 then 3/10 then 4/10'') = [c0, c1, c2]"
    unfolding c0_def c1_def c2_def by code_simp
  then have h: "scan_candidates (normalize ''2 out of 5 then 3/10 then 4/10'') \<noteq> []" by simp
  have s: "score (Some 10) c0 = 1015" "score (Some 10) c1 = 1015" "score (Some 10) c2 = 5"
    by (simp_all add: score_def c0_def c1_def c2_def)
  note t = extractScoreFromText_best_pair[OF h, of "Some 10" None, unfolded c Let_def, folded r_def]
  have res: "pickBestPair [c0, c1, c2] (Some 10) = Some c0 \<and> obtained r = Some 3 \<and>
      outOf r = Some 10 \<and> method' r = Fraction \<and> confidence r = 0.95"
    using t
  proof (elim exE conjE, goal_cases)
    case (1 i)
    from 1(1) have "i = 0 \<or> i = 1 \<or> i = 2" by auto
    moreover have "i \<noteq> 1"
    proof
      assume "i = 1"
      with 1(4) have "score (Some 10) c0 < score (Some 10) c1" by simp
      with s show False by simp
    qed
    moreover have "i \<noteq> 2"
    proof
      assume "i = 2"
      with 1(3) have "score (Some 10) c0 \<le> score (Some 10) c2" by auto
      with s show False by simp
    qed
    ultimately have "i = 0" by blast
    with 1(5-9) show ?case by (simp add: c0_def)
  qed
  have pb: "pickBestPair (scan_candidates (normalize ''2 out of 5 then 3/10 then 4/10'')) (Some 10) =
      Some c0"
    using res by (simp only: c)
  from h c s pb res show ?thesis
    unfolding c0_def c1_def c2_def r_def by (intro conjI) blast+
qed

text \<open>
  C5 (as amended). The candidates of the result are the valid fraction and out-of
  matches of the two scans, followed by one entry made from the label when the label
  strategy gave the result, or by one entry made from the number when the fallback
  found a number, and by nothing else.
\<close>

theorem extractScoreFromText_candidates:
  "candidates (extractScoreFromText text0 expectedOutOf labelHint0) =
     scan_candidates (normalize text0) @
     (case obtained (extractScoreFromText text0 expectedOutOf labelHint0) of
        None \<Rightarrow> []
      | Some ob \<Rightarrow>
          if method' (extractScoreFromText text0 expectedOutOf labelHint0) = Label
          then [\<lparr>ScoreCandidate.obtained = ob,
                 ScoreCandidate.outOf = outOf (extractScoreFromText text0 expectedOutOf labelHint0),
                 raw = label_hint labelHint0 @ '': '' @ String ob\<rparr>]
          else if method' (extractScoreFromText text0 expectedOutOf labelHint0) = Fallback
          then [\<lparr>ScoreCandidate.obtained = ob, ScoreCandidate.outOf = expectedOutOf,
                 raw = String ob\<rparr>]
          else [])"
  by (simp add: extractScoreFromText_def Let_def split: option.split list.split prod.split)

text \<open>
  The text "17" without an expected total: both scans find nothing, the fallback takes
  the number, and the candidates of the result hold the entry made from it.
\<close>

theorem fallback_candidate_counterexample:
  "scan_candidates (normalize ''17'') = [] \<and>
   method' (extractScoreFromText ''17'' None None) = Fallback \<and>
   confidence (extractScoreFromText ''17'' None None) = 0.25 \<and>
   candidates (extractScoreFromText ''17'' None None) =
     [\<lparr>ScoreCandidate.obtained = 17, ScoreCandidate.outOf = None, raw = ''17''\<rparr>]"
  by code_simp

section \<open>Heuristic grading\<close>

record Deduction =
  reason :: string
  marks :: real

record QuestionResult =
  questionId :: string
  marksAwarded :: real
  maxMarks :: real
  feedback :: string
  deductions :: "Deduction list"
  weakAreas :: "string list"

record Evaluation =
  totalMarks :: real
  maxTotalMarks :: real
  overallFeedback :: string
  weakAreas :: "string list"
  confidence :: real
  questions :: "QuestionResult list"

definition STOP_WORDS :: "string list" where
  "STOP_WORDS =
    [''a'', ''an'', ''the'', ''and'', ''or'', ''but'', ''if'', ''then'', ''else'', ''when'', ''while'', ''of'',
     ''to'', ''in'', ''on'', ''at'', ''by'', ''for'', ''from'', ''with'',
     ''is'', ''are'', ''was'', ''were'', ''be'', ''been'', ''being'', ''as'', ''it'', ''this'', ''that'',
     ''these'', ''those'', ''we'', ''you'', ''they'', ''i'', ''he'', ''she'',
     ''not'', ''no'', ''yes'', ''do'', ''does'', ''did'', ''done'', ''can'', ''could'', ''should'', ''would'',
     ''may'', ''might'', ''must'', ''will'', ''shall'',
     ''there'', ''here'', ''than'', ''so'', ''such'', ''also'', ''into'', ''over'', ''under'', ''between'',
     ''within'', ''without'']"

definition clamp :: "real \<Rightarrow> real \<Rightarrow> real \<Rightarrow> real" where
  "clamp n mn mx = min mx (max mn n)"

function split_loop :: "rx \<Rightarrow> string \<Rightarrow> nat \<Rightarrow> nat \<Rightarrow> string list" where
  "split_loop r s p q =
     (if q < length s then
        (case rmatch r s (q, Map.empty) of
           [] \<Rightarrow> split_loop r s p (Suc q)
         | y # _ \<Rightarrow>
             (let e = min (fst y) (length s) in
              if e = p then split_loop r s p (Suc q)
              else slice s p q # split_loop r s e e))
      else [slice s p (length s)])"
  by pat_completeness auto
termination
proof (relation "inv_image (less_than <*lex*> less_than)
    (\<lambda>(r, s, p, q). (length s - q, if p = q then 0 else (1::nat)))", goal_cases)
  case 1
  show ?case by (intro wf_inv_image wf_lex_prod wf_less_than)
next
  case (2 r s p q)
  then show ?case by auto
next
  case (3 r s p q y ys e)
  then show ?case by auto
next
  case (4 r s p q y ys e)
  from 4(2) have "y \<in> set (rmatch r s (q, Map.empty))" by simp
  from rmatch_bounds[OF this] have "q \<le> fst y" by simp
  with 4 show ?case by (auto simp: min_def)
qed

declare split_loop.simps [simp del]

definition split_re :: "rx \<Rightarrow> string \<Rightarrow> string list" where
  \<comment> \<open>\<^verbatim>\<open>s.split(/r/)\<close>\<close>
  "split_re r s =
     (if length s = 0 then (case rmatch r s (0, Map.empty) of [] \<Rightarrow> [s] | _ \<Rightarrow> [])
      else split_loop r s 0 0)"

definition tokenize :: "string \<Rightarrow> string list" where
  "tokenize t =
     filter (\<lambda>t. length t \<ge> 2 \<and> t \<notin> set STOP_WORDS)
       (map trim
         (split_re (plus ws)
           (replace_all
              (Cls (\<lambda>c. \<not> ((97 \<le> (of_char c :: nat) \<and> (of_char c :: nat) \<le> 122) \<or> is_digit c \<or> is_space c)))
              '' '' (toLowerCase t))))"

definition map_get :: "('k \<times> 'v) list \<Rightarrow> 'k \<Rightarrow> 'v option" where
  "map_get m k = map_of m k"

definition termFreq :: "string list \<Rightarrow> (string \<times> nat) list" where
  "termFreq tokens =
     foldl (\<lambda>m t. map_set m t ((case map_get m t of None \<Rightarrow> 0 | Some n \<Rightarrow> n) + 1)) [] tokens"

definition cosineSimilarity :: "(real \<Rightarrow> real) \<Rightarrow> string \<Rightarrow> string \<Rightarrow> real" where
  \<comment> \<open>\<open>rnd\<close> rounds the exact result of an operation to the number the machine returns\<close>
  "cosineSimilarity rnd a b =
     (let ta = tokenize a; tb = tokenize b in
      if length ta = 0 \<or> length tb = 0 then 0
      else
        let fa = termFreq ta;
            fb = termFreq tb;
            normA = foldl (\<lambda>acc v. acc + v * v) 0 (map snd fa);
            normB = foldl (\<lambda>acc v. acc + v * v) 0 (map snd fb);
            dot = foldl (\<lambda>acc (k, va). acc + va * (case map_get fb k of None \<Rightarrow> 0 | Some vb \<Rightarrow> vb)) 0 fa
        in if normA = 0 \<or> normB = 0 then 0
           else clamp (rnd (real dot / rnd (rnd (sqrt (real normA)) * rnd (sqrt (real normB))))) 0 1)"

definition by_count :: "string \<times> nat \<Rightarrow> string \<times> nat \<Rightarrow> int" where
  \<comment> \<open>\<^verbatim>\<open>(a, b) => b[1] - a[1]\<close>\<close>
  "by_count a b = int (snd b) - int (snd a)"

definition extractKeyPhrases :: "string \<Rightarrow> nat \<Rightarrow> string list" where
  "extractKeyPhrases modelAnswer limit =
     (let tokens = filter (\<lambda>t. length t \<ge> 5) (tokenize modelAnswer);
          freq = termFreq tokens
      in map fst (take limit (js_sort by_count freq)))"

definition missingKeywords :: "string \<Rightarrow> string \<Rightarrow> nat \<Rightarrow> string list" where
  "missingKeywords modelAnswer studentAnswer limit =
     (let modelTokens = filter (\<lambda>t. length t \<ge> 5) (tokenize modelAnswer);
          studentSet = set (tokenize studentAnswer);
          freq = termFreq modelTokens
      in map fst (take limit (js_sort by_count (filter (\<lambda>(w, n). w \<notin> studentSet) freq))))"

definition aggregateWeakAreas :: "string list \<Rightarrow> string list" where
  "aggregateWeakAreas areas = map fst (take 10 (js_sort by_count (termFreq areas)))"

fun join :: "string \<Rightarrow> string list \<Rightarrow> string" where
  "join sep [] = []"
| "join sep [x] = x"
| "join sep (x # y # ys) = x @ sep @ join sep (y # ys)"

definition js_set :: "'a list \<Rightarrow> 'a list" where
  \<comment> \<open>\<^verbatim>\<open>[...new Set(xs)]\<close>: each value once, in the order of first occurrence\<close>
  "js_set xs = foldl (\<lambda>acc x. if x \<in> set acc then acc else acc @ [x]) [] xs"

definition Math_round :: "real \<Rightarrow> real" where
  "Math_round x = of_int \<lfloor>x + 1 / 2\<rfloor>"

definition grade_question ::
  "(real \<Rightarrow> real) \<Rightarrow> (string \<times> string) list \<Rightarrow> (string \<times> string) list \<Rightarrow> int \<Rightarrow> string \<Rightarrow> QuestionResult" where
  \<comment> \<open>the function mapped over \<^verbatim>\<open>questionIds\<close>\<close>
  "grade_question rnd modelById studentById maxMarksPerQuestion id' =
     (let modelAnswer = trim (case map_get modelById id' of None \<Rightarrow> [] | Some t \<Rightarrow> t);
          studentAnswer = trim (case map_get studentById id' of None \<Rightarrow> [] | Some t \<Rightarrow> t);
          maxMarks = real_of_int maxMarksPerQuestion
      in
      if studentAnswer = [] then
        \<lparr>questionId = id', marksAwarded = 0, maxMarks = maxMarks,
         feedback = ''No answer detected for this question.'',
         deductions = [\<lparr>reason = ''Blank or unreadable answer'', marks = maxMarks\<rparr>],
         weakAreas = (if modelAnswer \<noteq> [] then extractKeyPhrases modelAnswer 6 else [])\<rparr>
      else if modelAnswer = [] then
        \<lparr>questionId = id', marksAwarded = 0, maxMarks = maxMarks,
         feedback = ''Model answer for this question was not detected; cannot grade reliably.'',
         deductions = [\<lparr>reason = ''Missing model answer'', marks = maxMarks\<rparr>],
         weakAreas = []\<rparr>
      else
        let sim = cosineSimilarity rnd modelAnswer studentAnswer;
            raw = rnd (sim * maxMarks);
            marksAwarded = clamp (Math_round (raw * 2) / 2) 0 maxMarks;
            missing = missingKeywords modelAnswer studentAnswer 6;
            deductions =
              (if marksAwarded = maxMarks then []
               else [\<lparr>reason = (if length missing \<noteq> 0
                                   then ''Missing key points: '' @ join '', '' missing
                                   else ''Answer differs from model key''),
                       marks = clamp (maxMarks - marksAwarded) 0 maxMarks\<rparr>]);
            feedback =
              (if marksAwarded = maxMarks then ''Matches the model answer closely.''
               else if length missing \<noteq> 0
                 then ''Partially correct. Improve coverage of: '' @ join '', '' missing @ ''.''
                 else ''Partially correct. Add more specific points from the model answer.'')
        in \<lparr>questionId = id', marksAwarded = marksAwarded, maxMarks = maxMarks,
            feedback = feedback, deductions = deductions, weakAreas = missing\<rparr>)"

definition gradeSubmissionHeuristic ::
  "(real \<Rightarrow> real) \<Rightarrow> QaPair list \<Rightarrow> QaPair list \<Rightarrow> int \<Rightarrow> Evaluation" where
  "gradeSubmissionHeuristic rnd modelQa studentQa maxMarksPerQuestion =
     (let modelById = foldl (\<lambda>m q. map_set m (QaPair.questionId q) (text' q)) [] modelQa;
          studentById = foldl (\<lambda>m q. map_set m (QaPair.questionId q) (text' q)) [] studentQa;
          questionIds = js_sort by_number (js_set (map fst modelById @ map fst studentById));
          questions = map (grade_question rnd modelById studentById maxMarksPerQuestion) questionIds;
          maxTotalMarks = foldl (\<lambda>acc q. acc + maxMarks q) 0 questions;
          totalMarks = foldl (\<lambda>acc q. acc + marksAwarded q) 0 questions;
          weakAreasAgg = aggregateWeakAreas (concat (map QuestionResult.weakAreas questions))
      in \<lparr>totalMarks = totalMarks, maxTotalMarks = maxTotalMarks,
          overallFeedback = ''Heuristic grading used (free, no LLM). For best accuracy and richer feedback, enable OpenAI billing or use a local LLM.'',
          weakAreas = weakAreasAgg, confidence = 0.35, questions = questions\<rparr>)"

lemma termFreq_fold:
  assumes "distinct (map fst m)"
  shows "distinct (map fst (foldl (\<lambda>m t. map_set m t ((case map_get m t of None \<Rightarrow> 0 | Some n \<Rightarrow> n) + 1)) m ts)) \<and>
    (\<forall>k. map_of (foldl (\<lambda>m t. map_set m t ((case map_get m t of None \<Rightarrow> 0 | Some n \<Rightarrow> n) + 1)) m ts) k =
       (if k \<in> set ts \<or> k \<in> fst ` set m
        then Some ((case map_of m k of None \<Rightarrow> 0 | Some n \<Rightarrow> n) + count_list ts k) else None))"
  using assms
proof (induction ts arbitrary: m)
  case Nil
  then show ?case by (auto simp: map_of_eq_None_iff split: option.splits)
next
  case (Cons t ts)
  define m' where "m' = map_set m t ((case map_get m t of None \<Rightarrow> 0 | Some n \<Rightarrow> n) + 1)"
  have d: "distinct (map fst m')" unfolding m'_def by (rule distinct_map_set[OF Cons.prems])
  have mo: "map_of m' = (map_of m)(t \<mapsto> (case map_of m t of None \<Rightarrow> 0 | Some n \<Rightarrow> n) + 1)"
    unfolding m'_def by (simp add: map_of_map_set map_get_def)
  have ks: "fst ` set m' = insert t (fst ` set m)"
    unfolding m'_def by (rule keys_map_set)
  from Cons.IH[OF d] show ?case
    unfolding foldl_Cons m'_def[symmetric] by (auto simp: mo ks)
qed

lemma termFreq_props:
  "distinct (map fst (termFreq ts))"
  "map_of (termFreq ts) k = (if k \<in> set ts then Some (count_list ts k) else None)"
  using termFreq_fold[of "[]" ts] by (simp_all add: termFreq_def)

lemma termFreq_keys: "set (map fst (termFreq ts)) = set ts"
proof -
  have "fst ` set (termFreq ts) = dom (map_of (termFreq ts))"
    by (simp add: dom_map_of_conv_image_fst)
  also have "\<dots> = set ts" by (auto simp: termFreq_props(2) dom_def)
  finally show ?thesis by simp
qed

lemma termFreq_entry: "(k, v) \<in> set (termFreq ts) \<Longrightarrow> v = count_list ts k"
proof -
  assume "(k, v) \<in> set (termFreq ts)"
  with termFreq_props(1)[of ts] have "map_of (termFreq ts) k = Some v" by simp
  then show ?thesis by (simp add: termFreq_props(2) split: if_splits)
qed

lemma foldl_add_sum_list:
  "foldl (\<lambda>acc x. acc + f x) a xs = a + sum_list (map f xs)"
  for a :: "'b::monoid_add"
  by (induction xs arbitrary: a) (simp_all add: add.assoc)

lemma dot_count:
  "foldl (\<lambda>acc (k, va). acc + va * (case map_get (termFreq tb) k of None \<Rightarrow> 0 | Some vb \<Rightarrow> vb)) 0
     (termFreq ta) = (\<Sum>k \<in> set ta. count_list ta k * count_list tb k)"
proof -
  have g: "(case map_get (termFreq tb) k of None \<Rightarrow> 0 | Some vb \<Rightarrow> vb) = count_list tb k" for k
    by (simp add: map_get_def termFreq_props(2) count_list_0_iff)
  have "(\<lambda>acc (k, va). acc + va * (case map_get (termFreq tb) k of None \<Rightarrow> 0 | Some vb \<Rightarrow> vb)) =
      (\<lambda>acc x. acc + snd x * count_list tb (fst x))"
    by (auto simp: fun_eq_iff g)
  then have "foldl (\<lambda>acc (k, va). acc + va * (case map_get (termFreq tb) k of None \<Rightarrow> 0 | Some vb \<Rightarrow> vb)) 0
      (termFreq ta) = foldl (\<lambda>acc x. acc + snd x * count_list tb (fst x)) 0 (termFreq ta)"
    by simp
  also have "\<dots> = sum_list (map (\<lambda>x. snd x * count_list tb (fst x)) (termFreq ta))"
    by (simp add: foldl_add_sum_list)
  also have "\<dots> = sum_list (map (\<lambda>k. count_list ta k * count_list tb k) (map fst (termFreq ta)))"
    unfolding map_map by (rule arg_cong[of _ _ sum_list], rule map_cong)
      (auto dest: termFreq_entry)
  also have "\<dots> = (\<Sum>k \<in> set (map fst (termFreq ta)). count_list ta k * count_list tb k)"
    by (rule sum_list_distinct_conv_sum_set[OF termFreq_props(1)])
  finally show ?thesis by (simp only: termFreq_keys)
qed

lemma dot_sym:
  "(\<Sum>k \<in> set ta. count_list ta k * count_list tb k) =
   (\<Sum>k \<in> set tb. count_list tb k * count_list ta k)"
proof -
  have "(\<Sum>k \<in> set ta. count_list ta k * count_list tb k) =
        (\<Sum>k \<in> set ta \<inter> set tb. count_list ta k * count_list tb k)"
    by (rule sum.mono_neutral_right) (auto simp: count_list_0_iff)
  also have "\<dots> = (\<Sum>k \<in> set ta \<inter> set tb. count_list tb k * count_list ta k)"
    by (simp add: mult.commute)
  also have "\<dots> = (\<Sum>k \<in> set tb. count_list tb k * count_list ta k)"
    by (rule sum.mono_neutral_left) (auto simp: count_list_0_iff)
  finally show ?thesis .
qed

lemma clamp_bounds: "mn \<le> mx \<Longrightarrow> mn \<le> clamp n mn mx \<and> clamp n mn mx \<le> mx"
  by (auto simp: clamp_def)

text \<open>
  C6. \<open>cosineSimilarity\<close> is a number between 0 and 1, whatever the rounding, and it is 0
  when one of the two texts has no token.
\<close>

theorem cosineSimilarity_range:
  "0 \<le> cosineSimilarity rnd a b \<and> cosineSimilarity rnd a b \<le> 1 \<and>
   (tokenize a = [] \<or> tokenize b = [] \<longrightarrow> cosineSimilarity rnd a b = 0)"
  using clamp_bounds[of 0 1] by (simp add: cosineSimilarity_def Let_def)

theorem cosineSimilarity_range_witness:
  "tokenize ''the'' = [] \<and> tokenize ''hello world'' \<noteq> [] \<and>
   cosineSimilarity (\<lambda>x. x) ''the'' ''hello world'' = 0 \<and>
   0 \<le> cosineSimilarity (\<lambda>x. x) ''hello there'' ''hello world'' \<and>
   cosineSimilarity (\<lambda>x. x) ''hello there'' ''hello world'' \<le> 1"
proof -
  have a: "tokenize ''the'' = []" by code_simp
  have "length (tokenize ''hello world'') = 2" by code_simp
  then have b: "tokenize ''hello world'' \<noteq> []" by auto
  from cosineSimilarity_range[of "\<lambda>x. x" "''the''" "''hello world''"]
    cosineSimilarity_range[of "\<lambda>x. x" "''hello there''" "''hello world''"] a b
  show ?thesis by simp
qed

text \<open>
  C7. \<open>cosineSimilarity\<close> is symmetric in its two texts, whatever the rounding.
\<close>

theorem cosineSimilarity_symmetric:
  "cosineSimilarity rnd a b = cosineSimilarity rnd b a"
proof -
  have "real (\<Sum>k \<in> set (tokenize a). count_list (tokenize a) k * count_list (tokenize b) k) =
        real (\<Sum>k \<in> set (tokenize b). count_list (tokenize b) k * count_list (tokenize a) k)"
    by (simp only: dot_sym)
  then show ?thesis
    by (simp add: cosineSimilarity_def Let_def dot_count mult.commute disj_commute)
qed

lemma keys_foldl_map_set:
  "fst ` set (foldl (\<lambda>m q. map_set m (f q) (g q)) m0 qs) = fst ` set m0 \<union> f ` set qs"
  by (induction qs arbitrary: m0) (auto simp: keys_map_set)

lemma js_set_fold:
  "distinct acc \<Longrightarrow>
   distinct (foldl (\<lambda>acc x. if x \<in> set acc then acc else acc @ [x]) acc xs) \<and>
   set (foldl (\<lambda>acc x. if x \<in> set acc then acc else acc @ [x]) acc xs) = set acc \<union> set xs"
  by (induction xs arbitrary: acc) auto

lemma js_set_props: "distinct (js_set xs)" "set (js_set xs) = set xs"
  using js_set_fold[of "[]" xs] by (simp_all add: js_set_def)

lemma questionId_grade_question:
  "questionId (grade_question rnd modelById studentById m i) = i"
  by (simp add: grade_question_def Let_def)

lemma maxMarks_grade_question:
  "maxMarks (grade_question rnd modelById studentById m i) = real_of_int m"
  by (simp add: grade_question_def Let_def)

lemma clamp_half:
  assumes "0 \<le> m"
  shows "\<exists>k::int. clamp (Math_round x / 2) 0 (real_of_int m) = real_of_int k / 2"
proof -
  have "clamp (Math_round x / 2) 0 (real_of_int m) = real_of_int m \<or>
        clamp (Math_round x / 2) 0 (real_of_int m) = 0 \<or>
        clamp (Math_round x / 2) 0 (real_of_int m) = real_of_int \<lfloor>x + 1 / 2\<rfloor> / 2"
    by (auto simp: clamp_def Math_round_def min_def max_def)
  moreover have "real_of_int m = real_of_int (2 * m) / 2" by simp
  moreover have "(0::real) = real_of_int 0 / 2" by simp
  ultimately show ?thesis by metis
qed

lemma marks_grade_question:
  assumes "0 \<le> m"
  shows "(\<exists>k::int. marksAwarded (grade_question rnd modelById studentById m i) = real_of_int k / 2) \<and>
    0 \<le> marksAwarded (grade_question rnd modelById studentById m i) \<and>
    marksAwarded (grade_question rnd modelById studentById m i) \<le> real_of_int m"
proof -
  have z: "\<exists>k::int. (0::real) = real_of_int k / 2" by (rule exI[of _ 0]) simp
  from assms have b: "(0::real) \<le> real_of_int m" by simp
  show ?thesis
    using clamp_half[OF assms] clamp_bounds[OF b] z b
    by (simp add: grade_question_def Let_def)
qed

text \<open>
  C1. The results of \<open>gradeSubmissionHeuristic\<close> have one entry for each question id of
  the model spans or of the student spans, and for no other id; when the maximum marks
  per question are a positive integer, the marks awarded for a question are a multiple
  of 0.5 between 0 and the maximum marks of the question.
\<close>

theorem gradeSubmissionHeuristic_questions:
  "distinct (map questionId (questions (gradeSubmissionHeuristic rnd modelQa studentQa m))) \<and>
   set (map questionId (questions (gradeSubmissionHeuristic rnd modelQa studentQa m))) =
     QaPair.questionId ` set modelQa \<union> QaPair.questionId ` set studentQa \<and>
   (0 < m \<longrightarrow>
     (\<forall>q \<in> set (questions (gradeSubmissionHeuristic rnd modelQa studentQa m)).
        (\<exists>k::int. marksAwarded q = real_of_int k / 2) \<and>
        0 \<le> marksAwarded q \<and> marksAwarded q \<le> maxMarks q \<and> maxMarks q = real_of_int m))"
proof -
  define modelById where
    "modelById = foldl (\<lambda>m q. map_set m (QaPair.questionId q) (text' q)) [] modelQa"
  define studentById where
    "studentById = foldl (\<lambda>m q. map_set m (QaPair.questionId q) (text' q)) [] studentQa"
  define questionIds where
    "questionIds = js_sort by_number (js_set (map fst modelById @ map fst studentById))"
  have qs: "questions (gradeSubmissionHeuristic rnd modelQa studentQa m) =
      map (grade_question rnd modelById studentById m) questionIds"
    by (simp add: gradeSubmissionHeuristic_def Let_def modelById_def studentById_def questionIds_def)
  have ids: "map questionId (map (grade_question rnd modelById studentById m) questionIds) = questionIds"
    by (simp add: questionId_grade_question comp_def)
  have "distinct (map (\<lambda>x. x) questionIds)"
    unfolding questionIds_def distinct_map_js_sort by (simp add: js_set_props(1))
  then have d: "distinct questionIds" by simp
  have s: "set questionIds = QaPair.questionId ` set modelQa \<union> QaPair.questionId ` set studentQa"
    unfolding questionIds_def set_js_sort js_set_props(2) modelById_def studentById_def
    by (simp add: keys_foldl_map_set)
  have mk: "(\<exists>k::int. marksAwarded q = real_of_int k / 2) \<and>
        0 \<le> marksAwarded q \<and> marksAwarded q \<le> maxMarks q \<and> maxMarks q = real_of_int m"
    if "0 < m" "q \<in> set (map (grade_question rnd modelById studentById m) questionIds)" for q
  proof -
    from that(2) obtain i where q: "q = grade_question rnd modelById studentById m i" by auto
    from that(1) have "0 \<le> m" by simp
    from marks_grade_question[OF this, of rnd modelById studentById i]
    show ?thesis by (simp add: q maxMarks_grade_question)
  qed
  show ?thesis unfolding qs ids using d s mk by blast
qed

theorem gradeSubmissionHeuristic_questions_witness:
  "(0::int) < 5 \<and>
   (\<exists>q. q \<in> set (questions (gradeSubmissionHeuristic (\<lambda>x. x)
        [\<lparr>QaPair.questionId = ''1'', text' = ''plants make energy''\<rparr>]
        [\<lparr>QaPair.questionId = ''2'', text' = ''water boils''\<rparr>] 5)) \<and>
      (\<exists>k::int. marksAwarded q = real_of_int k / 2) \<and>
      0 \<le> marksAwarded q \<and> marksAwarded q \<le> maxMarks q \<and> maxMarks q = real_of_int 5)"
proof -
  define Q where "Q = questions (gradeSubmissionHeuristic (\<lambda>x. x)
        [\<lparr>QaPair.questionId = ''1'', text' = ''plants make energy''\<rparr>]
        [\<lparr>QaPair.questionId = ''2'', text' = ''water boils''\<rparr>] 5)"
  have h: "(0::int) < 5" by simp
  note t = gradeSubmissionHeuristic_questions[of "\<lambda>x. x"
      "[\<lparr>QaPair.questionId = ''1'', text' = ''plants make energy''\<rparr>]"
      "[\<lparr>QaPair.questionId = ''2'', text' = ''water boils''\<rparr>]" 5, folded Q_def]
  from t[THEN conjunct2, THEN conjunct1] have "set (map questionId Q) \<noteq> {}" by simp
  then have "hd Q \<in> set Q" by simp
  with t[THEN conjunct2, THEN conjunct2, THEN mp, OF h]
  have "\<exists>q. q \<in> set Q \<and> (\<exists>k::int. marksAwarded q = real_of_int k / 2) \<and>
      0 \<le> marksAwarded q \<and> marksAwarded q \<le> maxMarks q \<and> maxMarks q = real_of_int 5"
    by blast
  with h show ?thesis unfolding Q_def by (rule conjI)
qed

text \<open>
  C2. The total marks of an evaluation are the sum of the marks awarded for its
  questions and its maximum total is the sum of their maximum marks; when the maximum
  marks per question are not negative (a positive integer in particular), neither sum
  is negative.
\<close>

theorem gradeSubmissionHeuristic_totals:
  "totalMarks (gradeSubmissionHeuristic rnd modelQa studentQa m) =
     sum_list (map marksAwarded (questions (gradeSubmissionHeuristic rnd modelQa studentQa m))) \<and>
   maxTotalMarks (gradeSubmissionHeuristic rnd modelQa studentQa m) =
     sum_list (map maxMarks (questions (gradeSubmissionHeuristic rnd modelQa studentQa m))) \<and>
   (0 \<le> m \<longrightarrow> 0 \<le> totalMarks (gradeSubmissionHeuristic rnd modelQa studentQa m) \<and>
               0 \<le> maxTotalMarks (gradeSubmissionHeuristic rnd modelQa studentQa m))"
proof -
  define modelById where
    "modelById = foldl (\<lambda>m q. map_set m (QaPair.questionId q) (text' q)) [] modelQa"
  define studentById where
    "studentById = foldl (\<lambda>m q. map_set m (QaPair.questionId q) (text' q)) [] studentQa"
  define questionIds where
    "questionIds = js_sort by_number (js_set (map fst modelById @ map fst studentById))"
  define qs where "qs = map (grade_question rnd modelById studentById m) questionIds"
  have e: "questions (gradeSubmissionHeuristic rnd modelQa studentQa m) = qs"
    "totalMarks (gradeSubmissionHeuristic rnd modelQa studentQa m) = sum_list (map marksAwarded qs)"
    "maxTotalMarks (gradeSubmissionHeuristic rnd modelQa studentQa m) = sum_list (map maxMarks qs)"
    by (simp_all add: gradeSubmissionHeuristic_def Let_def modelById_def studentById_def
        questionIds_def qs_def foldl_add_sum_list)
  have nn: "0 \<le> sum_list (map marksAwarded qs) \<and> 0 \<le> sum_list (map maxMarks qs)" if m0: "0 \<le> m"
  proof -
    have "0 \<le> marksAwarded q \<and> 0 \<le> maxMarks q" if "q \<in> set qs" for q
    proof -
      from that obtain i where q: "q = grade_question rnd modelById studentById m i"
        by (auto simp: qs_def)
      from marks_grade_question[OF m0, of rnd modelById studentById i] m0
      show ?thesis by (simp add: q maxMarks_grade_question)
    qed
    then show ?thesis by (auto intro!: sum_list_nonneg)
  qed
  show ?thesis unfolding e using nn by simp
qed

theorem gradeSubmissionHeuristic_totals_witness:
  "(0::int) \<le> 5 \<and>
   (0 \<le> totalMarks (gradeSubmissionHeuristic (\<lambda>x. x)
        [\<lparr>QaPair.questionId = ''1'', text' = ''plants make energy''\<rparr>]
        [\<lparr>QaPair.questionId = ''1'', text' = ''plants''\<rparr>] 5) \<and>
    0 \<le> maxTotalMarks (gradeSubmissionHeuristic (\<lambda>x. x)
        [\<lparr>QaPair.questionId = ''1'', text' = ''plants make energy''\<rparr>]
        [\<lparr>QaPair.questionId = ''1'', text' = ''plants''\<rparr>] 5))"
proof -
  have h: "(0::int) \<le> 5" by simp
  note t = gradeSubmissionHeuristic_totals[of "\<lambda>x. x"
      "[\<lparr>QaPair.questionId = ''1'', text' = ''plants make energy''\<rparr>]"
      "[\<lparr>QaPair.questionId = ''1'', text' = ''plants''\<rparr>]" 5]
  from h t[THEN conjunct2, THEN conjunct2, THEN mp, OF h] show ?thesis by (rule conjI)
qed

end
